theory Spec2Isabelle
  imports Main "HOL-Library.Sublist" "HOL-Library.AList"
begin

section \<open>Data model (src/index.ts, lines 7-65)\<close>

text \<open>
  JavaScript strings are modelled as \<open>string\<close>; only their equality matters here.
  An optional property (\<open>events?\<close>, \<open>data?\<close>, \<open>name?\<close>, \<open>hooks?\<close>, \<open>mode?\<close>) is an
  \<open>option\<close>, \<open>None\<close> standing for \<open>undefined\<close>.  The payload type \<open>any\<close> is the type
  parameter \<open>'d\<close>, the transport's \<open>Response\<close> the type parameter \<open>'r\<close>.
\<close>

datatype Environment = sandbox | production

fun Environment_string :: "Environment \<Rightarrow> string" where
  "Environment_string sandbox = ''sandbox''"
| "Environment_string production = ''production''"

type_synonym EventType = string

record Hook =
  url :: string
  events :: "EventType list option"

text \<open>
  \<open>PostData\<close> is \<open>Omit<Body, 'id' | 'created'>\<close>, the argument of \<open>post\<close>; \<open>Body\<close> adds
  the two fields that \<open>post\<close> fills in.  The field \<open>id\<close> is written \<open>id'\<close>.
\<close>

record 'd PostData =
  idempotency_key :: string
  api_version :: string
  type :: EventType
  data :: "'d option"

record 'd Body = "'d PostData" +
  id' :: string
  created :: int

datatype error = Error string

text \<open>
  How a call of a completion observer ends: it throws, it returns no promise, or it
  returns a promise, which settles later.
\<close>

datatype cb_result = Cb_throws error | Cb_void | Cb_promise

text \<open>
  An observer is JavaScript of the caller's.  It is given the \<open>hookData\<close> object itself, so
  it may change the envelope under the observers that follow, and it may call the
  dispatcher's methods while it runs.  A call of an observer is therefore described by
  how it ends (\<open>outcome\<close>), the envelope as it leaves it (\<open>envelope\<close>) and the methods of the
  dispatcher it calls meanwhile (\<open>calls\<close>), for what it is handed.  What the code behind
  a promise does later is a later step of the run.  The response \<open>'r\<close> stands for the
  \<open>Response\<close> object itself, and the payload \<open>'d\<close> for the object the caller gave to
  \<open>trigger\<close>, to which every envelope of the call refers; the dispatcher never looks into
  either, but for the serialiser.
\<close>

datatype ('d, 'r) call =
    Call_add string "EventType list option"
  | Call_onDone "string \<Rightarrow> 'd Body \<Rightarrow> 'r \<Rightarrow> ('d, 'r) effect"
  | Call_trigger EventType "'d option"
and ('d, 'r) effect =
    Effect (outcome: cb_result) (envelope: "'d Body") (calls: "('d, 'r) call list")

type_synonym ('d, 'r) onDoneCallback = "string \<Rightarrow> 'd Body \<Rightarrow> 'r \<Rightarrow> ('d, 'r) effect"

record WebhooksProps =
  props_api_version :: string
  props_secret :: string
  props_hooks :: "Hook list option"
  props_mode :: "Environment option"
  props_name :: "string option"

text \<open>The fields of the class; \<open>this.api_version\<close> is written \<open>client_api_version\<close>.\<close>

record ('d, 'r) WebhookClient =
  hooks :: "Hook list"
  secret :: string
  name :: "string option"
  mode :: Environment
  client_api_version :: string
  internalEvent :: "('d, 'r) onDoneCallback list"

text \<open>
  The \<open>options\<close> object handed to \<open>fetch\<close>, its key \<open>method\<close> written \<open>http_method\<close>;
  \<open>headers\<close> keeps the order of its keys.
\<close>

record Options =
  http_method :: string
  headers :: "(string \<times> string) list"
  body :: string

section \<open>External collaborators\<close>

text \<open>
  The libraries the module imports are parameters of the model: \<open>uuidv4 x n\<close> is what
  the \<open>n\<close>-th call of \<open>uuidv4()\<close> returns, \<open>Date_now x n\<close> what the \<open>n\<close>-th call of
  \<open>Date.now()\<close> returns, \<open>JSON_stringify\<close> may throw (a cyclic payload, a BigInt), and
  \<open>hmac_sha256_hex x key msg\<close> is
  \<open>crypto.createHmac('sha256', key).update(msg).digest('hex')\<close>.
\<close>

record 'd externals =
  uuidv4 :: "nat \<Rightarrow> string"
  Date_now :: "nat \<Rightarrow> int"
  JSON_stringify :: "'d Body \<Rightarrow> error + string"
  hmac_sha256_hex :: "string \<Rightarrow> string \<Rightarrow> string"

section \<open>Signer (lines 89-107)\<close>

definition getSignature :: "'d externals \<Rightarrow> string \<Rightarrow> string \<Rightarrow> string" where
  "getSignature x secret' body' = hmac_sha256_hex x secret' body'"

definition verifySignature :: "'d externals \<Rightarrow> string \<Rightarrow> string \<Rightarrow> string \<Rightarrow> bool" where
  "verifySignature x secret' signature body' =
     (let hash = getSignature x secret' body' in hash = signature)"

section \<open>The dispatcher (lines 137-261)\<close>

definition constructor :: "WebhooksProps \<Rightarrow> ('d, 'r) WebhookClient" where
  "constructor props =
     \<lparr> hooks = (case props_hooks props of None \<Rightarrow> [] | Some hs \<Rightarrow> hs),
       secret = props_secret props,
       name = props_name props,
       mode = (case props_mode props of None \<Rightarrow> sandbox | Some m \<Rightarrow> m),
       client_api_version = props_api_version props,
       internalEvent = [] \<rparr>"

text \<open>\<open>add\<close> and \<open>$onDone\<close> push onto the end of their arrays.\<close>

definition add :: "string \<Rightarrow> EventType list option \<Rightarrow> ('d, 'r) WebhookClient \<Rightarrow> ('d, 'r) WebhookClient" where
  "add u evs c = (let hook = \<lparr> url = u, events = evs \<rparr> in c\<lparr> hooks := hooks c @ [hook] \<rparr>)"

definition onDone :: "('d, 'r) onDoneCallback \<Rightarrow> ('d, 'r) WebhookClient \<Rightarrow> ('d, 'r) WebhookClient" where
  "onDone callback c = c\<lparr> internalEvent := internalEvent c @ [callback] \<rparr>"

text \<open>
  \<open>getWebhooks\<close>: \<open>if (webhook.events) return webhook.events.includes(event); return true\<close>.
  An array is truthy even when empty, \<open>undefined\<close> is falsy.  \<open>filter\<close> builds a new array.
\<close>

fun includes' :: "'a list \<Rightarrow> 'a \<Rightarrow> bool" where
  "includes' [] v = False"
| "includes' (e # es) v = (if e = v then True else includes' es v)"

definition getWebhooks :: "('d, 'r) WebhookClient \<Rightarrow> EventType \<Rightarrow> Hook list" where
  "getWebhooks c event =
     filter (\<lambda>webhook. case events webhook of
                          Some evs \<Rightarrow> includes' evs event
                        | None \<Rightarrow> True) (hooks c)"

text \<open>
  The computed key of the signature header:
  \<open>`X${this.name ? `-${this.name}` : ''}-Signature`\<close>.  \<open>undefined\<close> and the empty string
  are falsy, every other string is truthy.
\<close>

definition truthy :: "string option \<Rightarrow> bool" where
  "truthy s = (case s of None \<Rightarrow> False | Some v \<Rightarrow> v \<noteq> [])"

definition signature_header :: "string option \<Rightarrow> string" where
  "signature_header nm =
     ''X'' @ (if truthy nm then ''-'' @ (case nm of Some v \<Rightarrow> v | None \<Rightarrow> []) else []) @ ''-Signature''"

subsection \<open>Promises and the observable trace\<close>

text \<open>
  A call of the async function \<open>post\<close> is suspended at \<open>await fetch(...)\<close>, or at
  \<open>await Promise.all(...)\<close> over the observers' results (with the response it got and the
  indices of the observers whose promises are still pending), or it has returned the
  response, or it has thrown.
\<close>

datatype 'r post_state =
    Awaiting_fetch
  | Awaiting_observers 'r "nat list"
  | Post_fulfilled 'r
  | Post_rejected error

record ('d, 'r) post_call =
  post_url :: string
  hookData :: "'d Body"
  state :: "'r post_state"

datatype 'r promise = Pending | Fulfilled "'r list" | Rejected error

text \<open>
  A call of \<open>trigger\<close>: the \<open>post\<close> calls it made, in the order of the matched hooks, and
  the promise \<open>Promise.all\<close> returned.  The pair \<open>(t, i)\<close> names the \<open>i\<close>-th \<open>post\<close> call
  of the \<open>t\<close>-th \<open>trigger\<close> call.
\<close>

record ('d, 'r) trigger_call =
  deliveries :: "('d, 'r) post_call list"
  result :: "'r promise"

type_synonym post_id = "nat \<times> nat"

text \<open>The calls that leave the module, and the settlements that come back, in time order.\<close>

datatype ('d, 'r) event =
    Ev_stringify "'d Body"
  | Ev_hmac string string
  | Ev_fetch post_id string Options
  | Ev_fetch_resolved post_id 'r
  | Ev_fetch_rejected post_id error
  | Ev_observer post_id nat string "'d Body" 'r cb_result
  | Ev_observer_settled post_id nat "error + unit"

record ('d, 'r) system =
  client :: "('d, 'r) WebhookClient"
  triggers :: "('d, 'r) trigger_call list"
  uuid_calls :: nat
  now_calls :: nat
  trace :: "('d, 'r) event list"

definition new_system :: "WebhooksProps \<Rightarrow> ('d, 'r) system" where
  "new_system props =
     \<lparr> client = constructor props, triggers = [], uuid_calls = 0, now_calls = 0, trace = [] \<rparr>"

text \<open>
  \<open>Promise.all\<close> over the promises of the \<open>post\<close> calls: rejected as soon as one of them
  is, fulfilled with the responses in the order of the array once all of them are.  A
  settled promise never changes (\<open>settle\<close>).
\<close>

fun Promise_all :: "('d, 'r) post_call list \<Rightarrow> 'r promise" where
  "Promise_all [] = Fulfilled []"
| "Promise_all (pc # pcs) =
     (case state pc of
        Post_rejected e \<Rightarrow> Rejected e
      | Post_fulfilled r \<Rightarrow>
          (case Promise_all pcs of
             Fulfilled rs \<Rightarrow> Fulfilled (r # rs)
           | Pending \<Rightarrow> Pending
           | Rejected e \<Rightarrow> Rejected e)
      | Awaiting_fetch \<Rightarrow>
          (case Promise_all pcs of Rejected e \<Rightarrow> Rejected e | _ \<Rightarrow> Pending)
      | Awaiting_observers r ks \<Rightarrow>
          (case Promise_all pcs of Rejected e \<Rightarrow> Rejected e | _ \<Rightarrow> Pending))"

definition settle :: "'r promise \<Rightarrow> 'r promise \<Rightarrow> 'r promise" where
  "settle old new = (case old of Pending \<Rightarrow> new | _ \<Rightarrow> old)"

subsection \<open>\<open>post\<close> (lines 230-260)\<close>

text \<open>
  The part of \<open>post\<close> that runs inside the call, up to \<open>await fetch(url, options)\<close>: build
  \<open>hookData\<close>, serialise it, sign the string, call \<open>fetch\<close>.  \<open>hookData\<close> is an object, so
  \<open>hookData ?? {}\<close> is \<open>hookData\<close>.  A throwing \<open>JSON.stringify\<close> rejects the promise of the
  async function before any request.  The headers are the object literal of lines 238-245,
  its keys set in the order written.
\<close>

definition make_headers :: "'d externals \<Rightarrow> ('d, 'r) WebhookClient \<Rightarrow> string \<Rightarrow> (string \<times> string) list" where
  "make_headers x c body' =
     AList.update (signature_header (name c)) (getSignature x (secret c) body')
       (AList.update ''X-Environment'' (Environment_string (mode c))
         (AList.update ''Content-Type'' ''application/json'' []))"

definition post ::
  "'d externals \<Rightarrow> post_id \<Rightarrow> string \<Rightarrow> 'd PostData \<Rightarrow> ('d, 'r) system
     \<Rightarrow> ('d, 'r) post_call \<times> ('d, 'r) system" where
  "post x pid u d s =
     (let hookData' = \<lparr> idempotency_key = idempotency_key d, api_version = api_version d,
                        type = type d, data = data d,
                        id' = uuidv4 x (uuid_calls s), created = Date_now x (now_calls s) \<rparr>;
          s1 = s\<lparr> uuid_calls := Suc (uuid_calls s), now_calls := Suc (now_calls s) \<rparr>
      in case JSON_stringify x hookData' of
           Inl err \<Rightarrow>
             (\<lparr> post_url = u, hookData = hookData', state = Post_rejected err \<rparr>,
              s1\<lparr> trace := trace s @ [Ev_stringify hookData'] \<rparr>)
         | Inr body' \<Rightarrow>
             (let headers' = make_headers x (client s) body';
                  options = \<lparr> http_method = ''POST'', headers = headers', body = body' \<rparr>
              in (\<lparr> post_url = u, hookData = hookData', state = Awaiting_fetch \<rparr>,
                  s1\<lparr> trace := trace s @ [Ev_stringify hookData',
                                           Ev_hmac (secret (client s)) body',
                                           Ev_fetch pid u options] \<rparr>)))"

subsection \<open>\<open>trigger\<close> (lines 174-187)\<close>

text \<open>
  \<open>webhooks.map(({url}) => this.post(url, {idempotency_key: uuidv4(), ...}))\<close>: for each
  matched hook in turn the object literal is evaluated, which calls \<open>uuidv4()\<close>, and then
  \<open>post\<close> runs up to its first \<open>await\<close>.
\<close>

fun trigger_map ::
  "'d externals \<Rightarrow> nat \<Rightarrow> nat \<Rightarrow> EventType \<Rightarrow> 'd option \<Rightarrow> Hook list \<Rightarrow> ('d, 'r) system
     \<Rightarrow> ('d, 'r) post_call list \<times> ('d, 'r) system" where
  "trigger_map x t i ty dat [] s = ([], s)"
| "trigger_map x t i ty dat (webhook # webhooks) s =
     (let d = \<lparr> idempotency_key = uuidv4 x (uuid_calls s),
                api_version = client_api_version (client s),
                type = ty, data = dat \<rparr>;
          s1 = s\<lparr> uuid_calls := Suc (uuid_calls s) \<rparr>
      in case post x (t, i) (url webhook) d s1 of
           (pc, s2) \<Rightarrow>
             (case trigger_map x t (Suc i) ty dat webhooks s2 of
                (pcs, s3) \<Rightarrow> (pc # pcs, s3)))"

definition trigger :: "'d externals \<Rightarrow> EventType \<Rightarrow> 'd option \<Rightarrow> ('d, 'r) system \<Rightarrow> ('d, 'r) system" where
  "trigger x ty dat s =
     (let webhooks = getWebhooks (client s) ty in
      case trigger_map x (length (triggers s)) 0 ty dat webhooks s of
        (pcs, s') \<Rightarrow>
          s'\<lparr> triggers := triggers s' @ [\<lparr> deliveries = pcs, result = Promise_all pcs \<rparr>] \<rparr>)"

subsection \<open>The continuations of \<open>post\<close> (lines 253-259)\<close>

text \<open>A method of the dispatcher called from inside an observer.\<close>

fun reenter :: "'d externals \<Rightarrow> ('d, 'r) call \<Rightarrow> ('d, 'r) system \<Rightarrow> ('d, 'r) system" where
  "reenter x (Call_add u evs) s = s\<lparr> client := add u evs (client s) \<rparr>"
| "reenter x (Call_onDone callback) s = s\<lparr> client := onDone callback (client s) \<rparr>"
| "reenter x (Call_trigger ty dat) s = trigger x ty dat s"

text \<open>
  \<open>this.internalEvent.map(callback => callback(url, hookData, result))\<close>: the observers
  are called one after the other, in the order of the array, each with the same
  \<open>hookData\<close> object, so with the envelope as the observer before it left it; a throwing
  observer ends the \<open>map\<close>.  \<open>map\<close> visits the indices below the length the array had when
  it started, and \<open>$onDone\<close> only pushes, so the observers it calls are those of the array
  at the start.  \<open>call_observer\<close> is one call: the observer starts, and the methods it calls
  run.  The result of \<open>call_observers\<close> is the error thrown or the indices of the observers
  that returned a promise, and the state after the calls.
\<close>

definition call_observer ::
  "'d externals \<Rightarrow> ('d, 'r) onDoneCallback \<Rightarrow> nat \<Rightarrow> post_id \<Rightarrow> string \<Rightarrow> 'd Body \<Rightarrow> 'r
     \<Rightarrow> ('d, 'r) system \<Rightarrow> ('d, 'r) system" where
  "call_observer x callback k pid u b r s =
     fold (reenter x) (calls (callback u b r))
       (s\<lparr> trace := trace s @ [Ev_observer pid k u b r (outcome (callback u b r))] \<rparr>)"

fun call_observers ::
  "'d externals \<Rightarrow> ('d, 'r) onDoneCallback list \<Rightarrow> nat \<Rightarrow> post_id \<Rightarrow> string \<Rightarrow> 'd Body \<Rightarrow> 'r
     \<Rightarrow> ('d, 'r) system \<Rightarrow> (error + nat list) \<times> ('d, 'r) system" where
  "call_observers x [] k pid u b r s = (Inr [], s)"
| "call_observers x (callback # cbs) k pid u b r s =
     (let s1 = call_observer x callback k pid u b r s;
          b' = envelope (callback u b r)
      in case outcome (callback u b r) of
           Cb_throws e \<Rightarrow> (Inl e, s1)
         | Cb_void \<Rightarrow> call_observers x cbs (Suc k) pid u b' r s1
         | Cb_promise \<Rightarrow>
             (case call_observers x cbs (Suc k) pid u b' r s1 of
                (res, s2) \<Rightarrow> (case res of Inl e \<Rightarrow> Inl e | Inr ks \<Rightarrow> Inr (k # ks), s2)))"

definition valid :: "('d, 'r) system \<Rightarrow> post_id \<Rightarrow> bool" where
  "valid s pid \<longleftrightarrow>
     fst pid < length (triggers s) \<and> snd pid < length (deliveries (triggers s ! fst pid))"

definition delivery :: "('d, 'r) system \<Rightarrow> post_id \<Rightarrow> ('d, 'r) post_call" where
  "delivery s pid = deliveries (triggers s ! fst pid) ! snd pid"

text \<open>
  A \<open>post\<close> call that moves on is written back, and \<open>Promise.all\<close> of its \<open>trigger\<close> call
  sees the new state.  \<open>valid s pid\<close> says that \<open>pid\<close> names a \<open>post\<close> call made so far,
  \<open>delivery s pid\<close> is that call.
\<close>

definition update_post ::
  "post_id \<Rightarrow> ('d, 'r) post_call \<Rightarrow> ('d, 'r) system \<Rightarrow> ('d, 'r) system" where
  "update_post pid pc s =
     (let tc = triggers s ! fst pid;
          ds = (deliveries tc)[snd pid := pc]
      in s\<lparr> triggers := (triggers s)[fst pid :=
               \<lparr> deliveries = ds, result = settle (result tc) (Promise_all ds) \<rparr>] \<rparr>)"

text \<open>
  The continuation of \<open>post\<close> when the promise of \<open>fetch\<close> settles.  A rejection is thrown
  by the \<open>await\<close> (line 253) and rejects the call.  A response resumes the function: every
  observer registered by then is called, and the function waits for \<open>Promise.all\<close> of what
  they returned, which is already fulfilled when none returned a promise.  Nothing reads
  \<open>hookData\<close> after the observers, so the \<open>post\<close> call keeps the envelope as it was sent.
\<close>

definition post_after_fetch ::
  "'d externals \<Rightarrow> post_id \<Rightarrow> error + 'r \<Rightarrow> ('d, 'r) system \<Rightarrow> ('d, 'r) system" where
  "post_after_fetch x pid outcome' s =
     (if valid s pid \<and> state (delivery s pid) = Awaiting_fetch then
        (let pc = delivery s pid in
         case outcome' of
           Inl err \<Rightarrow>
             update_post pid (pc\<lparr> state := Post_rejected err \<rparr>)
               (s\<lparr> trace := trace s @ [Ev_fetch_rejected pid err] \<rparr>)
         | Inr r \<Rightarrow>
             (case call_observers x (internalEvent (client s)) 0 pid (post_url pc) (hookData pc) r
                     (s\<lparr> trace := trace s @ [Ev_fetch_resolved pid r] \<rparr>) of
                (res, s1) \<Rightarrow>
                  update_post pid
                    (pc\<lparr> state := (case res of
                                     Inl e \<Rightarrow> Post_rejected e
                                   | Inr [] \<Rightarrow> Post_fulfilled r
                                   | Inr (k # ks) \<Rightarrow> Awaiting_observers r (k # ks)) \<rparr>)
                    s1))
      else s)"

text \<open>
  The continuation when the promise returned by observer \<open>k\<close> settles while the call waits
  at \<open>await Promise.all(...)\<close> (line 255): a rejection rejects the call, the last
  fulfilment lets it return the response.
\<close>

definition post_after_observer ::
  "post_id \<Rightarrow> nat \<Rightarrow> error + unit \<Rightarrow> ('d, 'r) system \<Rightarrow> ('d, 'r) system" where
  "post_after_observer pid k outcome' s =
     (if valid s pid then
        (case state (delivery s pid) of
           Awaiting_observers r ks \<Rightarrow>
             (if k \<in> set ks then
                (let pc = delivery s pid;
                     s1 = s\<lparr> trace := trace s @ [Ev_observer_settled pid k outcome'] \<rparr>
                 in case outcome' of
                      Inl err \<Rightarrow> update_post pid (pc\<lparr> state := Post_rejected err \<rparr>) s1
                    | Inr _ \<Rightarrow>
                        update_post pid
                          (pc\<lparr> state := (if removeAll k ks = [] then Post_fulfilled r
                                          else Awaiting_observers r (removeAll k ks)) \<rparr>) s1)
              else s)
         | _ \<Rightarrow> s)
      else s)"

subsection \<open>Runs\<close>

text \<open>
  What can happen to a dispatcher after its construction: a call of one of its three
  public methods, or the settlement of a promise it waits for.  A settlement nothing
  waits for changes nothing.  What runs between two suspensions is one step; the order
  of the steps is the order in which the event loop resumes the calls, and a run may
  take them in any order.
\<close>

datatype ('d, 'r) action =
    Add string "EventType list option"
  | OnDone "('d, 'r) onDoneCallback"
  | Trigger EventType "'d option"
  | Fetch_settles post_id "error + 'r"
  | Observer_settles post_id nat "error + unit"

fun step :: "'d externals \<Rightarrow> ('d, 'r) action \<Rightarrow> ('d, 'r) system \<Rightarrow> ('d, 'r) system" where
  "step x (Add u evs) s = s\<lparr> client := add u evs (client s) \<rparr>"
| "step x (OnDone callback) s = s\<lparr> client := onDone callback (client s) \<rparr>"
| "step x (Trigger ty dat) s = trigger x ty dat s"
| "step x (Fetch_settles pid outcome') s = post_after_fetch x pid outcome' s"
| "step x (Observer_settles pid k outcome') s = post_after_observer pid k outcome' s"

definition run :: "'d externals \<Rightarrow> ('d, 'r) action list \<Rightarrow> ('d, 'r) system \<Rightarrow> ('d, 'r) system" where
  "run x acts s = fold (step x) acts s"

subsection \<open>Reading a trace\<close>

text \<open>The \<open>options\<close> objects of the requests in a trace, in the order they were sent.\<close>

fun requests :: "('d, 'r) event list \<Rightarrow> Options list" where
  "requests [] = []"
| "requests (Ev_fetch pid u options # evs) = options # requests evs"
| "requests (_ # evs) = requests evs"

text \<open>
  The \<open>post\<close> call an event belongs to, whether it is a request, and whether it is the
  settlement of a promise, which the code learns of only where it awaits.
\<close>

fun event_post_id :: "('d, 'r) event \<Rightarrow> post_id option" where
  "event_post_id (Ev_stringify b) = None"
| "event_post_id (Ev_hmac k m) = None"
| "event_post_id (Ev_fetch pid u options) = Some pid"
| "event_post_id (Ev_fetch_resolved pid r) = Some pid"
| "event_post_id (Ev_fetch_rejected pid e) = Some pid"
| "event_post_id (Ev_observer pid k u b r res) = Some pid"
| "event_post_id (Ev_observer_settled pid k outcome') = Some pid"

fun is_fetch :: "('d, 'r) event \<Rightarrow> bool" where
  "is_fetch (Ev_fetch pid u options) = True"
| "is_fetch _ = False"

fun is_observer :: "('d, 'r) event \<Rightarrow> bool" where
  "is_observer (Ev_observer pid k u b r res) = True"
| "is_observer _ = False"

fun settlement :: "('d, 'r) event \<Rightarrow> bool" where
  "settlement (Ev_fetch_resolved pid r) = True"
| "settlement (Ev_fetch_rejected pid e) = True"
| "settlement (Ev_observer_settled pid k outcome') = True"
| "settlement _ = False"

text \<open>
  \<open>handed cbs u b r k\<close> is the envelope that the \<open>k\<close>-th observer of \<open>cbs\<close> is handed when the
  first is handed \<open>b\<close>: each gets it as the one before left it.  \<open>observer_call\<close> is the call
  of the \<open>k\<close>-th observer, with what it is handed and how it ends.
\<close>

definition handed ::
  "('d, 'r) onDoneCallback list \<Rightarrow> string \<Rightarrow> 'd Body \<Rightarrow> 'r \<Rightarrow> nat \<Rightarrow> 'd Body" where
  "handed cbs u b r k = fold (\<lambda>callback b'. envelope (callback u b' r)) (take k cbs) b"

definition observer_call ::
  "('d, 'r) onDoneCallback list \<Rightarrow> post_id \<Rightarrow> string \<Rightarrow> 'd Body \<Rightarrow> 'r \<Rightarrow> nat \<Rightarrow> ('d, 'r) event" where
  "observer_call cbs pid u b r k =
     Ev_observer pid k u (handed cbs u b r k) r (outcome ((cbs ! k) u (handed cbs u b r k) r))"

text \<open>
  What a \<open>post\<close> call never changes once made: for each \<open>trigger\<close> call, the URL and the
  envelope of each of its deliveries.  And whether a call made from inside an observer
  registers an observer.
\<close>

definition envelopes :: "('d, 'r) system \<Rightarrow> (string \<times> 'd Body) list list" where
  "envelopes s = map (\<lambda>tc. map (\<lambda>pc. (post_url pc, hookData pc)) (deliveries tc)) (triggers s)"


subsection \<open>Schedules\<close>



section \<open>A concrete configuration\<close>

text \<open>
  The configuration of test/dispatch.test.ts, and stand-ins for the libraries on which
  the model can be run: the \<open>n\<close>-th UUID is \<open>uuid-\<close> followed by \<open>n\<close> letters, the serialiser
  lists three fields of the envelope, the signature wraps the key and the message.
\<close>

definition test_props :: WebhooksProps where
  "test_props =
     \<lparr> props_api_version = ''2020-08-27'', props_secret = ''this-is-a-secret'',
       props_hooks = None, props_mode = None, props_name = None \<rparr>"

definition test_externals :: "string externals" where
  "test_externals =
     \<lparr> uuidv4 = (\<lambda>n. ''uuid-'' @ replicate n CHR ''i''),
       Date_now = (\<lambda>n. 1648135876829 + int n),
       JSON_stringify = (\<lambda>b. Inr (''{'' @ idempotency_key b @ '','' @ type b @ '','' @ id' b @ ''}'')),
       hmac_sha256_hex = (\<lambda>key msg. ''hmac('' @ key @ '','' @ msg @ '')'') \<rparr>"

text \<open>
  Observers: one returns a promise, one returns nothing, one writes into the envelope
  and returns a promise, one throws, one calls \<open>trigger\<close> while it runs.
\<close>

definition async_observer :: "(string, string) onDoneCallback" where
  "async_observer u b r = Effect Cb_promise b []"

definition sync_observer :: "(string, string) onDoneCallback" where
  "sync_observer u b r = Effect Cb_void b []"

definition stamping_observer :: "(string, string) onDoneCallback" where
  "stamping_observer u b r = Effect Cb_promise (b\<lparr> data := Some ''seen'' \<rparr>) []"

definition throwing_observer :: "(string, string) onDoneCallback" where
  "throwing_observer u b r = Effect (Cb_throws (Error ''observer failed'')) b []"

definition reentrant_observer :: "(string, string) onDoneCallback" where
  "reentrant_observer u b r = Effect Cb_void b [Call_trigger ''something_else'' None]"

section \<open>Invariants of the runs\<close>

text \<open>
  What holds of every state a run reaches from a new dispatcher: the events in the trace
  belong to \<open>post\<close> calls that were made; a call that still waits for its response has
  no event but its request; a call that got a response has the resolution in the trace;
  a rejected transport call leaves its \<open>post\<close> call rejected, with no observer called; the
  promise of a \<open>trigger\<close> call is what \<open>Promise.all\<close> makes of the states of its \<open>post\<close>
  calls; and every call of an observer comes after the resolution and the calls of the
  observers before it, with no settlement in between.  \<open>moves\<close> describes the writing
  back of a \<open>post\<close> call that moved on.
\<close>

definition inv_ids :: "('d, 'r) system \<Rightarrow> bool" where
  "inv_ids s \<longleftrightarrow>
     (\<forall>ev pid. ev \<in> set (trace s) \<longrightarrow> event_post_id ev = Some pid \<longrightarrow> valid s pid)"

definition inv_fresh :: "('d, 'r) system \<Rightarrow> bool" where
  "inv_fresh s \<longleftrightarrow>
     (\<forall>pid ev. valid s pid \<longrightarrow> state (delivery s pid) = Awaiting_fetch \<longrightarrow>
        ev \<in> set (trace s) \<longrightarrow> event_post_id ev = Some pid \<longrightarrow> is_fetch ev)"

definition inv_resolved :: "('d, 'r) system \<Rightarrow> bool" where
  "inv_resolved s \<longleftrightarrow>
     (\<forall>pid r. valid s pid \<longrightarrow>
        (state (delivery s pid) = Post_fulfilled r \<or>
         (\<exists>ks. state (delivery s pid) = Awaiting_observers r ks)) \<longrightarrow>
        Ev_fetch_resolved pid r \<in> set (trace s))"

definition inv_rejected :: "('d, 'r) system \<Rightarrow> bool" where
  "inv_rejected s \<longleftrightarrow>
     (\<forall>pid e. Ev_fetch_rejected pid e \<in> set (trace s) \<longrightarrow>
        (\<exists>e'. state (delivery s pid) = Post_rejected e') \<and>
        (\<forall>k u b r res. Ev_observer pid k u b r res \<notin> set (trace s)))"

definition promise_ok :: "('d, 'r) trigger_call \<Rightarrow> bool" where
  "promise_ok tc \<longleftrightarrow>
     (case result tc of
        Pending \<Rightarrow> Promise_all (deliveries tc) = Pending
      | Fulfilled rs \<Rightarrow> map state (deliveries tc) = map Post_fulfilled rs
      | Rejected e \<Rightarrow> (\<exists>pc \<in> set (deliveries tc). state pc = Post_rejected e))"

definition inv_promises :: "('d, 'r) system \<Rightarrow> bool" where
  "inv_promises s \<longleftrightarrow> (\<forall>tc \<in> set (triggers s). promise_ok tc)"

definition inv_observers :: "('d, 'r) system \<Rightarrow> bool" where
  "inv_observers s \<longleftrightarrow>
     (\<forall>xs ys pid k u b r res.
        trace s = xs @ Ev_observer pid k u b r res # ys \<longrightarrow>
          k < length (internalEvent (client s)) \<and>
          u = post_url (delivery s pid) \<and>
          Ev_observer pid k u b r res =
            observer_call (internalEvent (client s)) pid u (hookData (delivery s pid)) r k \<and>
          (\<exists>xs' mid. xs = xs' @ Ev_fetch_resolved pid r # mid \<and>
              (\<forall>ev \<in> set mid. \<not> settlement ev) \<and>
              filter (\<lambda>ev. event_post_id ev = Some pid) mid =
                map (observer_call (internalEvent (client s)) pid u (hookData (delivery s pid)) r)
                  [0..<k]))"

definition invariant :: "('d, 'r) system \<Rightarrow> bool" where
  "invariant s \<longleftrightarrow> inv_ids s \<and> inv_fresh s \<and> inv_resolved s \<and> inv_rejected s \<and>
             inv_promises s \<and> inv_observers s"

definition moves ::
  "('d, 'r) system \<Rightarrow> post_id \<Rightarrow> 'r post_state \<Rightarrow> ('d, 'r) event list \<Rightarrow> bool" where
  "moves s pid st' evs \<longleftrightarrow>
     valid s pid \<and>
     ((state (delivery s pid) = Awaiting_fetch \<and>
         (\<exists>e. evs = [Ev_fetch_rejected pid e] \<and> st' = Post_rejected e)) \<or>
      (state (delivery s pid) = Awaiting_fetch \<and>
         (\<exists>r. evs = [Ev_fetch_resolved pid r] \<and>
              (st' = Post_fulfilled r \<or> (\<exists>ks. st' = Awaiting_observers r ks) \<or>
               (\<exists>e. st' = Post_rejected e)))) \<or>
      (\<exists>r ks k outcome'.
          state (delivery s pid) = Awaiting_observers r ks \<and>
          evs = [Ev_observer_settled pid k outcome'] \<and>
          (st' = Post_fulfilled r \<or> (\<exists>ks'. st' = Awaiting_observers r ks') \<or>
           (\<exists>e. st' = Post_rejected e))))"

text \<open>
  \<open>extends c c'\<close>: the dispatcher \<open>c'\<close> has the configuration of \<open>c\<close>, and its registry and its
  observers are those of \<open>c\<close> with more at the end.
\<close>

definition extends :: "('d, 'r) WebhookClient \<Rightarrow> ('d, 'r) WebhookClient \<Rightarrow> bool" where
  "extends c c' \<longleftrightarrow>
     client_api_version c' = client_api_version c \<and> secret c' = secret c \<and>
     mode c' = mode c \<and> name c' = name c \<and>
     prefix (hooks c) (hooks c') \<and> prefix (internalEvent c) (internalEvent c')"

text \<open>
  \<open>grows s s'\<close>: what calls of the dispatcher's methods make of a state.  The deliveries
  made so far are as they were, and the trace has more requests, of new deliveries.
\<close>

definition grows :: "('d, 'r) system \<Rightarrow> ('d, 'r) system \<Rightarrow> bool" where
  "grows s s' \<longleftrightarrow>
     extends (client s) (client s') \<and>
     (\<forall>q. valid s q \<longrightarrow> valid s' q \<and> delivery s' q = delivery s q) \<and>
     (\<exists>evs. trace s' = trace s @ evs \<and>
        (\<forall>ev \<in> set evs. \<not> settlement ev \<and> \<not> is_observer ev \<and>
           (\<forall>q. event_post_id ev = Some q \<longrightarrow> \<not> valid s q)))"

text \<open>
  \<open>calling cbs pid u b r xs k s\<close>: in the state \<open>s\<close> the delivery \<open>pid\<close>, with URL \<open>u\<close> and
  envelope \<open>b\<close>, has got the response \<open>r\<close> after the events \<open>xs\<close> and has called the first \<open>k\<close>
  of the observers \<open>cbs\<close>, with nothing settled since the response.
\<close>

definition calling ::
  "('d, 'r) onDoneCallback list \<Rightarrow> post_id \<Rightarrow> string \<Rightarrow> 'd Body \<Rightarrow> 'r \<Rightarrow> ('d, 'r) event list
     \<Rightarrow> nat \<Rightarrow> ('d, 'r) system \<Rightarrow> bool" where
  "calling cbs pid u b r xs k s \<longleftrightarrow>
     invariant s \<and> valid s pid \<and> state (delivery s pid) \<noteq> Awaiting_fetch \<and>
     (\<forall>e. Ev_fetch_rejected pid e \<notin> set (trace s)) \<and>
     u = post_url (delivery s pid) \<and> b = hookData (delivery s pid) \<and>
     prefix cbs (internalEvent (client s)) \<and>
     (\<exists>mid. trace s = xs @ Ev_fetch_resolved pid r # mid \<and>
        (\<forall>ev \<in> set mid. \<not> settlement ev) \<and>
        filter (\<lambda>ev. event_post_id ev = Some pid) mid = map (observer_call cbs pid u b r) [0..<k])"

section \<open>Basic facts about the model\<close>

lemma post_trace:
  "trace (snd (post x pid u d s)) = trace s @
     (case JSON_stringify x (hookData (fst (post x pid u d s))) of
        Inl e \<Rightarrow> [Ev_stringify (hookData (fst (post x pid u d s)))]
      | Inr b \<Rightarrow> [Ev_stringify (hookData (fst (post x pid u d s))),
                  Ev_hmac (secret (client s)) b,
                  Ev_fetch pid u \<lparr> http_method = ''POST'', headers = make_headers x (client s) b, body = b \<rparr>])"
  by (simp add: post_def Let_def split: sum.splits)

lemma post_client [simp]: "client (snd (post x pid u d s)) = client s"
  by (simp add: post_def Let_def split: sum.splits)

lemma post_triggers [simp]: "triggers (snd (post x pid u d s)) = triggers s"
  by (simp add: post_def Let_def split: sum.splits)

lemma trigger_map_client [simp]: "client (snd (trigger_map x t i ty dat hs s)) = client s"
  by (induction hs arbitrary: i s) (simp_all add: Let_def case_prod_beta)

lemma trigger_map_triggers [simp]: "triggers (snd (trigger_map x t i ty dat hs s)) = triggers s"
  by (induction hs arbitrary: i s) (simp_all add: Let_def case_prod_beta)

lemma trigger_client [simp]: "client (trigger x ty dat s) = client s"
  by (simp add: trigger_def Let_def case_prod_beta)

lemma update_post_client [simp]: "client (update_post pid pc s) = client s"
  by (simp add: update_post_def Let_def)

lemma update_post_trace [simp]: "trace (update_post pid pc s) = trace s"
  by (simp add: update_post_def Let_def)

lemma post_after_observer_client [simp]: "client (post_after_observer pid k outcome' s) = client s"
  by (simp add: post_after_observer_def Let_def split: post_state.splits sum.splits)

lemma run_Nil [simp]: "run x [] s = s"
  by (simp add: run_def)

lemma run_Cons [simp]: "run x (a # acts) s = run x acts (step x a s)"
  by (simp add: run_def)

lemma run_append: "run x (acts @ acts') s = run x acts' (run x acts s)"
  by (simp add: run_def)

lemma run_snoc: "run x (acts @ [a]) s = step x a (run x acts s)"
  by (simp add: run_def)

lemma signature_header_cases:
  "signature_header nm =
     (case nm of None \<Rightarrow> ''X-Signature''
      | Some v \<Rightarrow> if v = [] then ''X-Signature'' else ''X-'' @ v @ ''-Signature'')"
  by (simp add: signature_header_def truthy_def split: option.splits)

lemma signature_header_fresh:
  "signature_header nm \<noteq> ''Content-Type''" "signature_header nm \<noteq> ''X-Environment''"
proof -
  show "signature_header nm \<noteq> ''Content-Type''"
    by (simp add: signature_header_def)
  show "signature_header nm \<noteq> ''X-Environment''"
  proof
    assume "signature_header nm = ''X-Environment''"
    then have "last (signature_header nm) = last ''X-Environment''"
      by (rule arg_cong)
    then show False
      by (simp add: signature_header_def)
  qed
qed

lemma make_headers_eq:
  "make_headers x c b =
     [(''Content-Type'', ''application/json''),
      (''X-Environment'', Environment_string (mode c)),
      (signature_header (name c), getSignature x (secret c) b)]"
  using signature_header_fresh [of "name c"]
  by (simp add: make_headers_def)

lemma post_hookData:
  "hookData (fst (post x pid u d s)) =
     \<lparr> idempotency_key = idempotency_key d, api_version = api_version d, type = type d,
       data = data d, id' = uuidv4 x (uuid_calls s), created = Date_now x (now_calls s) \<rparr>"
  by (simp add: post_def Let_def split: sum.splits)

lemma post_url: "post_url (fst (post x pid u d s)) = u"
  by (simp add: post_def Let_def split: sum.splits)

lemma post_state:
  "state (fst (post x pid u d s)) =
     (case JSON_stringify x (hookData (fst (post x pid u d s))) of
        Inl e \<Rightarrow> Post_rejected e | Inr b \<Rightarrow> Awaiting_fetch)"
  by (simp add: post_def Let_def split: sum.splits)

lemma post_counters:
  "uuid_calls (snd (post x pid u d s)) = Suc (uuid_calls s)"
  "now_calls (snd (post x pid u d s)) = Suc (now_calls s)"
  by (simp_all add: post_def Let_def split: sum.splits)

lemma trigger_map_length [simp]:
  "length (fst (trigger_map x t i ty dat hs s)) = length hs"
  by (induction hs arbitrary: i s) (simp_all add: Let_def case_prod_beta)

lemma trigger_map_uuid_calls:
  "uuid_calls (snd (trigger_map x t i ty dat hs s)) = uuid_calls s + 2 * length hs"
  by (induction hs arbitrary: i s) (simp_all add: Let_def case_prod_beta post_counters)

lemma trigger_map_nth:
  "j < length hs \<Longrightarrow>
     idempotency_key (hookData (fst (trigger_map x t i ty dat hs s) ! j)) =
       uuidv4 x (uuid_calls s + 2 * j) \<and>
     id' (hookData (fst (trigger_map x t i ty dat hs s) ! j)) =
       uuidv4 x (uuid_calls s + 2 * j + 1) \<and>
     post_url (fst (trigger_map x t i ty dat hs s) ! j) = url (hs ! j)"
proof (induction hs arbitrary: i s j)
  case Nil
  then show ?case by simp
next
  case (Cons h hs)
  show ?case
  proof (cases j)
    case 0
    then show ?thesis
      by (simp add: Let_def case_prod_beta post_hookData post_url)
  next
    case (Suc j')
    then have "j' < length hs"
      using Cons.prems by simp
    from Cons.IH [OF this] show ?thesis
      using Suc by (simp add: Let_def case_prod_beta post_counters)
  qed
qed

lemma trigger_triggers:
  "triggers (trigger x ty dat s) =
     triggers s @ [\<lparr> deliveries = fst (trigger_map x (length (triggers s)) 0 ty dat (getWebhooks (client s) ty) s),
                     result = Promise_all (fst (trigger_map x (length (triggers s)) 0 ty dat (getWebhooks (client s) ty) s)) \<rparr>]"
  by (simp add: trigger_def Let_def case_prod_beta)

lemma extends_refl [simp]: "extends c c"
  by (simp add: extends_def)

lemma extends_trans: "extends c c' \<Longrightarrow> extends c' c'' \<Longrightarrow> extends c c''"
  unfolding extends_def using prefix_order.trans by auto

lemma reenter_extends: "extends (client s) (client (reenter x c s))"
  by (cases c) (simp_all add: extends_def add_def onDone_def Let_def)

lemma fold_reenter_extends: "extends (client s) (client (fold (reenter x) cs s))"
proof (induction cs arbitrary: s)
  case Nil
  show ?case by simp
next
  case (Cons c cs)
  show ?case
    using extends_trans [OF reenter_extends [of s x c] Cons.IH [of "reenter x c s"]] by simp
qed

lemma call_observer_extends: "extends (client s) (client (call_observer x cb k pid u b r s))"
  using fold_reenter_extends [of "s\<lparr> trace := trace s @ [Ev_observer pid k u b r (outcome (cb u b r))] \<rparr>"
          x "calls (cb u b r)"]
  by (simp add: call_observer_def)

lemma call_observers_snd_Cons:
  "snd (call_observers x (cb # cbs) k pid u b r s) =
     (case outcome (cb u b r) of
        Cb_throws e \<Rightarrow> call_observer x cb k pid u b r s
      | _ \<Rightarrow> snd (call_observers x cbs (Suc k) pid u (envelope (cb u b r)) r
                   (call_observer x cb k pid u b r s)))"
  by (simp add: Let_def case_prod_beta split: cb_result.splits)

lemma call_observers_fst_Cons:
  "fst (call_observers x (cb # cbs) k pid u b r s) =
     (case outcome (cb u b r) of
        Cb_throws e \<Rightarrow> Inl e
      | Cb_void \<Rightarrow> fst (call_observers x cbs (Suc k) pid u (envelope (cb u b r)) r
                        (call_observer x cb k pid u b r s))
      | Cb_promise \<Rightarrow>
          (case fst (call_observers x cbs (Suc k) pid u (envelope (cb u b r)) r
                       (call_observer x cb k pid u b r s)) of
             Inl e \<Rightarrow> Inl e | Inr ks \<Rightarrow> Inr (k # ks)))"
  by (simp add: Let_def case_prod_beta split: cb_result.splits)

lemma call_observers_extends:
  "extends (client s) (client (snd (call_observers x cbs k pid u b r s)))"
proof (induction cbs arbitrary: k b s)
  case Nil
  show ?case by simp
next
  case (Cons cb cbs)
  let ?s1 = "call_observer x cb k pid u b r s"
  have 1: "extends (client s) (client ?s1)"
    by (rule call_observer_extends)
  have 2: "extends (client ?s1)
             (client (snd (call_observers x cbs (Suc k) pid u (envelope (cb u b r)) r ?s1)))"
    by (rule Cons.IH)
  show ?case
    unfolding call_observers_snd_Cons
    using 1 extends_trans [OF 1 2] by (cases "outcome (cb u b r)") simp_all
qed

lemma post_after_fetch_extends: "extends (client s) (client (post_after_fetch x pid outcome' s))"
  using call_observers_extends [of "s\<lparr> trace := trace s @ [Ev_fetch_resolved pid r] \<rparr>" x
          "internalEvent (client s)" 0 pid "post_url (delivery s pid)" "hookData (delivery s pid)" r for r]
  by (simp add: post_after_fetch_def Let_def case_prod_beta split: sum.splits)

lemma step_extends: "extends (client s) (client (step x a s))"
  by (cases a) (simp_all add: post_after_fetch_extends, simp_all add: extends_def add_def onDone_def Let_def)

lemma run_extends: "extends (client s) (client (run x acts s))"
proof (induction acts arbitrary: s)
  case Nil
  show ?case by simp
next
  case (Cons a acts)
  show ?case
    using extends_trans [OF step_extends [of s x a] Cons.IH [of "step x a s"]] by simp
qed

lemma run_client_fields:
  "client_api_version (client (run x acts s)) = client_api_version (client s) \<and>
   secret (client (run x acts s)) = secret (client s) \<and>
   mode (client (run x acts s)) = mode (client s) \<and>
   name (client (run x acts s)) = name (client s) \<and>
   prefix (hooks (client s)) (hooks (client (run x acts s))) \<and>
   prefix (internalEvent (client s)) (internalEvent (client (run x acts s)))"
  using run_extends [of s x acts] by (simp add: extends_def)

subsection \<open>Promises\<close>

lemma valid_update_post [simp]: "valid (update_post pid pc s) q = valid s q"
  by (cases "fst pid < length (triggers s)")
     (auto simp: valid_def update_post_def Let_def nth_list_update)

lemma delivery_update_post:
  "valid s pid \<Longrightarrow> delivery (update_post pid pc s) q = (if q = pid then pc else delivery s q)"
  by (cases q; cases pid)
     (auto simp: valid_def delivery_def update_post_def Let_def nth_list_update)

lemma valid_trace_update [simp]: "valid (s\<lparr> trace := tr \<rparr>) q = valid s q"
  by (simp add: valid_def)

lemma delivery_trace_update [simp]: "delivery (s\<lparr> trace := tr \<rparr>) q = delivery s q"
  by (simp add: delivery_def)

lemma valid_client_update [simp]: "valid (s\<lparr> client := c \<rparr>) q = valid s q"
  by (simp add: valid_def)

lemma delivery_client_update [simp]: "delivery (s\<lparr> client := c \<rparr>) q = delivery s q"
  by (simp add: delivery_def)

lemma Promise_all_Fulfilled:
  "Promise_all ds = Fulfilled rs \<Longrightarrow> map state ds = map Post_fulfilled rs"
proof (induction ds arbitrary: rs)
  case Nil
  then show ?case by simp
next
  case (Cons pc ds)
  show ?case
  proof (cases "state pc")
    case (Post_fulfilled r)
    then obtain rs' where rs': "Promise_all ds = Fulfilled rs'" "rs = r # rs'"
      using Cons.prems by (auto split: promise.splits)
    then show ?thesis
      using Cons.IH [OF rs'(1)] Post_fulfilled by simp
  next
    case Awaiting_fetch
    then show ?thesis
      using Cons.prems by (simp split: promise.splits)
  next
    case (Awaiting_observers r ks)
    then show ?thesis
      using Cons.prems by (simp split: promise.splits)
  next
    case (Post_rejected e)
    then show ?thesis
      using Cons.prems by simp
  qed
qed


lemma Promise_all_Rejected:
  "Promise_all ds = Rejected e \<Longrightarrow> \<exists>pc \<in> set ds. state pc = Post_rejected e"
proof (induction ds)
  case Nil
  then show ?case by simp
next
  case (Cons pc ds)
  then show ?case
    by (cases "state pc"; cases "Promise_all ds") auto
qed


lemma promise_ok_Promise_all: "promise_ok \<lparr> deliveries = ds, result = Promise_all ds \<rparr>"
  using Promise_all_Rejected [of ds] Promise_all_Fulfilled [of ds]
  by (cases "Promise_all ds") (simp_all add: promise_ok_def)




lemma promise_ok_update:
  assumes ok: "promise_ok tc" and i: "i < length (deliveries tc)"
    and nf: "\<And>r. state (deliveries tc ! i) \<noteq> Post_fulfilled r"
    and nr: "\<And>e. state (deliveries tc ! i) \<noteq> Post_rejected e"
  shows "promise_ok \<lparr> deliveries = (deliveries tc)[i := pc],
                      result = settle (result tc) (Promise_all ((deliveries tc)[i := pc])) \<rparr>"
proof (cases "result tc")
  case Pending
  then show ?thesis
    using promise_ok_Promise_all [of "(deliveries tc)[i := pc]"] by (simp add: settle_def)
next
  case (Fulfilled rs)
  then have "map state (deliveries tc) = map Post_fulfilled rs"
    using ok by (simp add: promise_ok_def)
  then have eq: "map state (deliveries tc) ! i = map Post_fulfilled rs ! i"
    and len: "length (deliveries tc) = length rs"
    by (simp, rule map_eq_imp_length_eq)
  have "state (deliveries tc ! i) = Post_fulfilled (rs ! i)"
    using eq i len by simp
  then show ?thesis
    using nf by blast
next
  case (Rejected e)
  then obtain pc' where pc': "pc' \<in> set (deliveries tc)" "state pc' = Post_rejected e"
    using ok by (auto simp: promise_ok_def)
  then obtain j where j: "j < length (deliveries tc)" "deliveries tc ! j = pc'"
    by (auto simp: in_set_conv_nth)
  then have "j \<noteq> i"
    using nr pc'(2) by auto
  then have "(deliveries tc)[i := pc] ! j = pc'"
    using j by simp
  then have "pc' \<in> set ((deliveries tc)[i := pc])"
    using j(1) by (metis length_list_update nth_mem)
  then show ?thesis
    using Rejected pc'(2) by (auto simp: promise_ok_def settle_def)
qed

lemma moves_valid: "moves s pid st' evs \<Longrightarrow> valid s pid"
  by (simp add: moves_def)

lemma moves_ids: "moves s pid st' evs \<Longrightarrow> ev \<in> set evs \<Longrightarrow> event_post_id ev = Some pid"
  by (auto simp: moves_def)

lemma moves_not_final:
  "moves s pid st' evs \<Longrightarrow> state (delivery s pid) \<noteq> Post_fulfilled r"
  "moves s pid st' evs \<Longrightarrow> state (delivery s pid) \<noteq> Post_rejected e"
  by (auto simp: moves_def)

lemma moves_not_fresh: "moves s pid st' evs \<Longrightarrow> st' \<noteq> Awaiting_fetch"
  by (auto simp: moves_def)

lemma moves_resolved:
  assumes m: "moves s pid st' evs" and i: "inv_resolved s"
    and st': "st' = Post_fulfilled r \<or> (\<exists>ks. st' = Awaiting_observers r ks)"
  shows "Ev_fetch_resolved pid r \<in> set (trace s @ evs)"
proof (cases "state (delivery s pid)")
  case Awaiting_fetch
  then show ?thesis
    using m st' by (auto simp: moves_def)
next
  case (Awaiting_observers r' ks)
  then have "r' = r"
    using m st' by (auto simp: moves_def)
  then have "Ev_fetch_resolved pid r \<in> set (trace s)"
    using i Awaiting_observers moves_valid [OF m] unfolding inv_resolved_def by blast
  then show ?thesis by simp
next
  case (Post_fulfilled r')
  then show ?thesis
    using moves_not_final(1) [OF m] by simp
next
  case (Post_rejected e)
  then show ?thesis
    using moves_not_final(2) [OF m] by simp
qed

lemma moves_rejected:
  "moves s pid st' evs \<Longrightarrow> Ev_fetch_rejected q e \<in> set evs \<Longrightarrow>
     q = pid \<and> st' = Post_rejected e \<and> state (delivery s pid) = Awaiting_fetch"
  by (auto simp: moves_def)

lemma moves_no_observer:
  "moves s pid st' evs \<Longrightarrow> Ev_observer q k u b r res \<notin> set evs"
  by (auto simp: moves_def)

lemma moves_inv_ids:
  assumes m: "moves s pid st' evs" and i: "inv_ids s"
  shows "inv_ids (update_post pid pc (s\<lparr> trace := trace s @ evs \<rparr>))"
  using i moves_ids [OF m] moves_valid [OF m]
  by (auto simp: inv_ids_def)

lemma moves_inv_fresh:
  assumes m: "moves s pid st' evs" and i: "inv_fresh s"
  shows "inv_fresh (update_post pid ((delivery s pid)\<lparr> state := st' \<rparr>) (s\<lparr> trace := trace s @ evs \<rparr>))"
  unfolding inv_fresh_def
proof (intro allI impI)
  fix q ev
  let ?s' = "update_post pid ((delivery s pid)\<lparr> state := st' \<rparr>) (s\<lparr> trace := trace s @ evs \<rparr>)"
  assume v: "valid ?s' q" and st: "state (delivery ?s' q) = Awaiting_fetch"
    and ev: "ev \<in> set (trace ?s')" and id: "event_post_id ev = Some q"
  have vp: "valid (s\<lparr> trace := trace s @ evs \<rparr>) pid"
    using moves_valid [OF m] by simp
  have q: "q \<noteq> pid"
    using st moves_not_fresh [OF m] by (auto simp: delivery_update_post [OF vp])
  then have "ev \<notin> set evs"
    using moves_ids [OF m] id by auto
  then have "ev \<in> set (trace s)"
    using ev by simp
  moreover have "valid s q" "state (delivery s q) = Awaiting_fetch"
    using v st q by (simp_all add: delivery_update_post [OF vp])
  ultimately show "is_fetch ev"
    using i id unfolding inv_fresh_def by blast
qed

lemma moves_inv_resolved:
  assumes m: "moves s pid st' evs" and i: "inv_resolved s"
  shows "inv_resolved (update_post pid ((delivery s pid)\<lparr> state := st' \<rparr>) (s\<lparr> trace := trace s @ evs \<rparr>))"
  unfolding inv_resolved_def
proof (intro allI impI)
  fix q r
  let ?s' = "update_post pid ((delivery s pid)\<lparr> state := st' \<rparr>) (s\<lparr> trace := trace s @ evs \<rparr>)"
  assume v: "valid ?s' q"
    and st: "state (delivery ?s' q) = Post_fulfilled r \<or> (\<exists>ks. state (delivery ?s' q) = Awaiting_observers r ks)"
  have vp: "valid (s\<lparr> trace := trace s @ evs \<rparr>) pid"
    using moves_valid [OF m] by simp
  show "Ev_fetch_resolved q r \<in> set (trace ?s')"
  proof (cases "q = pid")
    case True
    then have "st' = Post_fulfilled r \<or> (\<exists>ks. st' = Awaiting_observers r ks)"
      using st by (simp add: delivery_update_post [OF vp])
    from moves_resolved [OF m i this] show ?thesis
      using True by simp
  next
    case False
    then have "valid s q"
      "state (delivery s q) = Post_fulfilled r \<or> (\<exists>ks. state (delivery s q) = Awaiting_observers r ks)"
      using v st by (simp_all add: delivery_update_post [OF vp])
    then have "Ev_fetch_resolved q r \<in> set (trace s)"
      using i unfolding inv_resolved_def by blast
    then show ?thesis by simp
  qed
qed

lemma moves_inv_rejected:
  assumes m: "moves s pid st' evs" and i: "inv_rejected s" and f: "inv_fresh s"
  shows "inv_rejected (update_post pid ((delivery s pid)\<lparr> state := st' \<rparr>) (s\<lparr> trace := trace s @ evs \<rparr>))"
  unfolding inv_rejected_def
proof (intro allI impI)
  fix q e
  let ?s' = "update_post pid ((delivery s pid)\<lparr> state := st' \<rparr>) (s\<lparr> trace := trace s @ evs \<rparr>)"
  assume "Ev_fetch_rejected q e \<in> set (trace ?s')"
  then consider (old) "Ev_fetch_rejected q e \<in> set (trace s)" | (new) "Ev_fetch_rejected q e \<in> set evs"
    by auto
  then show "(\<exists>e'. state (delivery ?s' q) = Post_rejected e') \<and>
             (\<forall>k u b r res. Ev_observer q k u b r res \<notin> set (trace ?s'))"
  proof cases
    case old
    have vp: "valid (s\<lparr> trace := trace s @ evs \<rparr>) pid"
      using moves_valid [OF m] by simp
    from old i obtain e' where e': "state (delivery s q) = Post_rejected e'"
      and no: "\<And>k u b r res. Ev_observer q k u b r res \<notin> set (trace s)"
      unfolding inv_rejected_def by blast
    have q: "q \<noteq> pid"
      using e' moves_not_final(2) [OF m] by auto
    have "Ev_observer q k u b r res \<notin> set evs" for k u b r res
      using moves_no_observer [OF m] by blast
    then show ?thesis
      using e' no q by (simp add: delivery_update_post [OF vp])
  next
    case new
    have vp: "valid (s\<lparr> trace := trace s @ evs \<rparr>) pid"
      using moves_valid [OF m] by simp
    from moves_rejected [OF m new] have q: "q = pid" and st': "st' = Post_rejected e"
      and aw: "state (delivery s pid) = Awaiting_fetch"
      by auto
    have no: "Ev_observer pid k u b r res \<notin> set evs" for k u b r res
      by (rule moves_no_observer [OF m])
    have "Ev_observer pid k u b r res \<notin> set (trace s)" for k u b r res
    proof
      assume "Ev_observer pid k u b r res \<in> set (trace s)"
      then have "is_fetch (Ev_observer pid k u b r res :: ('a, 'b) event)"
        using f aw moves_valid [OF m] unfolding inv_fresh_def by (metis event_post_id.simps(6))
      then show False by simp
    qed
    then show ?thesis
      using q st' no by (simp add: delivery_update_post [OF vp])
  qed
qed

lemma moves_inv_promises:
  assumes m: "moves s pid st' evs" and i: "inv_promises s"
  shows "inv_promises (update_post pid pc (s\<lparr> trace := trace s @ evs \<rparr>))"
proof -
  have v: "fst pid < length (triggers s)" "snd pid < length (deliveries (triggers s ! fst pid))"
    using moves_valid [OF m] by (simp_all add: valid_def)
  have ok: "promise_ok (triggers s ! fst pid)"
    using i v(1) by (simp add: inv_promises_def)
  have nf: "state (deliveries (triggers s ! fst pid) ! snd pid) \<noteq> Post_fulfilled r" for r
    using moves_not_final(1) [OF m] by (simp add: delivery_def)
  have nr: "state (deliveries (triggers s ! fst pid) ! snd pid) \<noteq> Post_rejected e" for e
    using moves_not_final(2) [OF m] by (simp add: delivery_def)
  have new: "promise_ok \<lparr> deliveries = (deliveries (triggers s ! fst pid))[snd pid := pc],
       result = settle (result (triggers s ! fst pid))
                  (Promise_all ((deliveries (triggers s ! fst pid))[snd pid := pc])) \<rparr>"
    by (rule promise_ok_update [OF ok v(2) nf nr])
  show ?thesis
    using i new set_update_subset_insert [of "triggers s" "fst pid"]
    by (auto simp: inv_promises_def update_post_def Let_def)
qed

subsection \<open>The invariants, one at a time\<close>

lemma map_upt_split:
  assumes "zs @ e # ys = map f [0..<m]"
  shows "zs = map f [0..<length zs] \<and> e = f (length zs) \<and> length zs < m"
proof -
  have len: "length zs + Suc (length ys) = m"
    using arg_cong [OF assms, of length] by simp
  then have lt: "length zs < m"
    by simp
  have "zs = take (length zs) (zs @ e # ys)"
    by simp
  also have "\<dots> = map f (take (length zs) [0..<m])"
    by (simp only: assms take_map)
  also have "take (length zs) [0..<m] = [0..<length zs]"
    using lt by simp
  finally have zs: "zs = map f [0..<length zs]" .
  have "e = (zs @ e # ys) ! length zs"
    by simp
  also have "\<dots> = f (length zs)"
    using lt by (simp only: assms) simp
  finally show ?thesis
    using zs lt by simp
qed

lemma append_Cons_eq_append:
  "xs @ e # ys = tr @ evs \<Longrightarrow>
     (\<exists>zs. tr = xs @ e # zs \<and> ys = zs @ evs) \<or> (\<exists>zs. xs = tr @ zs \<and> evs = zs @ e # ys)"
  by (auto simp: append_eq_append_conv2 append_eq_Cons_conv Cons_eq_append_conv)

lemma inv_idsD:
  "invariant s \<Longrightarrow> ev \<in> set (trace s) \<Longrightarrow> event_post_id ev = Some q \<Longrightarrow> valid s q"
  unfolding invariant_def inv_ids_def by blast

lemma inv_freshD:
  "invariant s \<Longrightarrow> valid s q \<Longrightarrow> state (delivery s q) = Awaiting_fetch \<Longrightarrow>
     ev \<in> set (trace s) \<Longrightarrow> event_post_id ev = Some q \<Longrightarrow> is_fetch ev"
  unfolding invariant_def inv_fresh_def by blast

lemma inv_resolvedD:
  "invariant s \<Longrightarrow> valid s q \<Longrightarrow>
     state (delivery s q) = Post_fulfilled r \<or> (\<exists>ks. state (delivery s q) = Awaiting_observers r ks) \<Longrightarrow>
     Ev_fetch_resolved q r \<in> set (trace s)"
  unfolding invariant_def inv_resolved_def by blast

lemma inv_rejectedD:
  "invariant s \<Longrightarrow> Ev_fetch_rejected q e \<in> set (trace s) \<Longrightarrow>
     (\<exists>e'. state (delivery s q) = Post_rejected e') \<and>
     (\<forall>k u b r res. Ev_observer q k u b r res \<notin> set (trace s))"
  unfolding invariant_def inv_rejected_def by blast

lemma inv_promisesD:
  "invariant s \<Longrightarrow> t < length (triggers s) \<Longrightarrow> promise_ok (triggers s ! t)"
  unfolding invariant_def inv_promises_def by simp

lemma inv_observersD:
  "invariant s \<Longrightarrow> trace s = xs @ Ev_observer q k u b r res # ys \<Longrightarrow>
     k < length (internalEvent (client s)) \<and>
     u = post_url (delivery s q) \<and>
     Ev_observer q k u b r res =
       observer_call (internalEvent (client s)) q u (hookData (delivery s q)) r k \<and>
     (\<exists>xs' mid. xs = xs' @ Ev_fetch_resolved q r # mid \<and>
         (\<forall>ev \<in> set mid. \<not> settlement ev) \<and>
         filter (\<lambda>ev. event_post_id ev = Some q) mid =
           map (observer_call (internalEvent (client s)) q u (hookData (delivery s q)) r) [0..<k])"
  unfolding invariant_def inv_observers_def by blast

lemma handed_prefix:
  "prefix cbs cbs' \<Longrightarrow> j \<le> length cbs \<Longrightarrow> handed cbs' u b r j = handed cbs u b r j"
  by (auto simp: handed_def prefix_def)

lemma observer_call_prefix:
  "prefix cbs cbs' \<Longrightarrow> j < length cbs \<Longrightarrow>
     observer_call cbs' q u b r j = observer_call cbs q u b r j"
  using handed_prefix [of cbs cbs' j u b r]
  by (auto simp: observer_call_def prefix_def nth_append)

lemma inv_observers_extend:
  assumes io: "inv_observers s" and ids: "inv_ids s"
    and tr: "trace s' = trace s @ evs"
    and no: "\<And>ev. ev \<in> set evs \<Longrightarrow> \<not> is_observer ev"
    and cb: "prefix (internalEvent (client s)) (internalEvent (client s'))"
    and fr: "\<And>q. valid s q \<Longrightarrow> post_url (delivery s' q) = post_url (delivery s q) \<and>
                                hookData (delivery s' q) = hookData (delivery s q)"
  shows "inv_observers s'"
  unfolding inv_observers_def
proof (intro allI impI)
  fix xs ys q k u b r res
  let ?cbs = "internalEvent (client s)" and ?cbs' = "internalEvent (client s')"
  assume "trace s' = xs @ Ev_observer q k u b r res # ys"
  then have eq: "xs @ Ev_observer q k u b r res # ys = trace s @ evs"
    by (simp add: tr)
  have "Ev_observer q k u b r res \<notin> set evs"
    using no [of "Ev_observer q k u b r res"] by auto
  with append_Cons_eq_append [OF eq] obtain zs
    where zs: "trace s = xs @ Ev_observer q k u b r res # zs"
    by auto
  then have "Ev_observer q k u b r res \<in> set (trace s)"
    by simp
  then have vq: "valid s q"
    using ids unfolding inv_ids_def by (metis event_post_id.simps(6))
  from io zs obtain xs' mid where k: "k < length ?cbs"
    and u: "u = post_url (delivery s q)"
    and ev: "Ev_observer q k u b r res = observer_call ?cbs q u (hookData (delivery s q)) r k"
    and xs: "xs = xs' @ Ev_fetch_resolved q r # mid"
    and mid: "\<forall>ev \<in> set mid. \<not> settlement ev"
    and pr: "filter (\<lambda>ev. event_post_id ev = Some q) mid =
               map (observer_call ?cbs q u (hookData (delivery s q)) r) [0..<k]"
    unfolding inv_observers_def by blast
  have same: "post_url (delivery s' q) = post_url (delivery s q)"
             "hookData (delivery s' q) = hookData (delivery s q)"
    using fr [OF vq] by simp_all
  have oc: "observer_call ?cbs' q u b0 r j = observer_call ?cbs q u b0 r j" if "j \<le> k" for j b0
    using observer_call_prefix [OF cb, of j q u b0 r] that k by simp
  have m: "map (observer_call ?cbs' q u (hookData (delivery s q)) r) [0..<k] =
           map (observer_call ?cbs q u (hookData (delivery s q)) r) [0..<k]"
    by (rule map_cong) (simp_all add: oc)
  have "k < length ?cbs'"
    using k cb by (auto simp: prefix_def)
  then show "k < length ?cbs' \<and> u = post_url (delivery s' q) \<and>
        Ev_observer q k u b r res = observer_call ?cbs' q u (hookData (delivery s' q)) r k \<and>
        (\<exists>xs' mid. xs = xs' @ Ev_fetch_resolved q r # mid \<and>
            (\<forall>ev \<in> set mid. \<not> settlement ev) \<and>
            filter (\<lambda>ev. event_post_id ev = Some q) mid =
              map (observer_call ?cbs' q u (hookData (delivery s' q)) r) [0..<k])"
    unfolding same m oc [OF order_refl] using u ev xs mid pr by blast
qed

lemma trigger_map_trace:
  "\<exists>evs. trace (snd (trigger_map x t i ty dat hs s)) = trace s @ evs \<and>
     (\<forall>ev \<in> set evs. \<not> settlement ev \<and> \<not> is_observer ev \<and>
        (\<forall>q. event_post_id ev = Some q \<longrightarrow>
           is_fetch ev \<and> fst q = t \<and> i \<le> snd q \<and> snd q < i + length hs))"
proof (induction hs arbitrary: i s)
  case Nil
  show ?case by simp
next
  case (Cons h hs)
  let ?d = "\<lparr> idempotency_key = uuidv4 x (uuid_calls s),
               api_version = client_api_version (client s), type = ty, data = dat \<rparr>"
  let ?s1 = "s\<lparr> uuid_calls := Suc (uuid_calls s) \<rparr>"
  let ?p = "post x (t, i) (url h) ?d ?s1"
  obtain evs1 where evs1: "trace (snd ?p) = trace s @ evs1"
    and ids1: "\<forall>ev \<in> set evs1. \<not> settlement ev \<and> \<not> is_observer ev \<and>
                 (\<forall>q. event_post_id ev = Some q \<longrightarrow> is_fetch ev \<and> q = (t, i))"
    using post_trace [of x "(t, i)" "url h" ?d ?s1]
    by (cases "JSON_stringify x (hookData (fst ?p))") auto
  from Cons.IH [of "Suc i" "snd ?p"] obtain evs2
    where evs2: "trace (snd (trigger_map x t (Suc i) ty dat hs (snd ?p))) = trace (snd ?p) @ evs2"
      and ids2: "\<forall>ev \<in> set evs2. \<not> settlement ev \<and> \<not> is_observer ev \<and>
                   (\<forall>q. event_post_id ev = Some q \<longrightarrow>
                      is_fetch ev \<and> fst q = t \<and> Suc i \<le> snd q \<and> snd q < Suc i + length hs)"
    by blast
  have "trace (snd (trigger_map x t i ty dat (h # hs) s)) = trace s @ (evs1 @ evs2)"
    using evs1 evs2 by (simp add: Let_def case_prod_beta)
  moreover have "\<forall>ev \<in> set (evs1 @ evs2). \<not> settlement ev \<and> \<not> is_observer ev \<and>
        (\<forall>q. event_post_id ev = Some q \<longrightarrow>
           is_fetch ev \<and> fst q = t \<and> i \<le> snd q \<and> snd q < i + length (h # hs))"
    using ids1 ids2 by fastforce
  ultimately show ?case
    by blast
qed

lemma trigger_map_states:
  "pc \<in> set (fst (trigger_map x t i ty dat hs s)) \<Longrightarrow>
     state pc = Awaiting_fetch \<or> (\<exists>e. state pc = Post_rejected e)"
proof (induction hs arbitrary: i s)
  case Nil
  then show ?case by simp
next
  case (Cons h hs)
  then show ?case
    by (auto simp: Let_def case_prod_beta post_state split: sum.splits)
qed

lemma trigger_trace:
  "trace (trigger x ty dat s) =
     trace (snd (trigger_map x (length (triggers s)) 0 ty dat (getWebhooks (client s) ty) s))"
  by (simp add: trigger_def Let_def case_prod_beta)

lemma valid_trigger:
  "valid (trigger x ty dat s) q \<longleftrightarrow>
     valid s q \<or> (fst q = length (triggers s) \<and> snd q < length (getWebhooks (client s) ty))"
  by (cases "fst q < length (triggers s)")
     (auto simp: valid_def trigger_triggers nth_append)

lemma delivery_trigger_old:
  "fst q < length (triggers s) \<Longrightarrow> delivery (trigger x ty dat s) q = delivery s q"
  by (simp add: delivery_def trigger_triggers nth_append)

lemma delivery_trigger_new:
  "fst q = length (triggers s) \<Longrightarrow>
     delivery (trigger x ty dat s) q =
       fst (trigger_map x (length (triggers s)) 0 ty dat (getWebhooks (client s) ty) s) ! snd q"
  by (simp add: delivery_def trigger_triggers nth_append)

subsection \<open>The invariants hold after a call of a method\<close>

lemma moves_inv_observers:
  assumes m: "moves s pid st' evs" and i: "inv_observers s" and ids: "inv_ids s"
  shows "inv_observers (update_post pid ((delivery s pid)\<lparr> state := st' \<rparr>) (s\<lparr> trace := trace s @ evs \<rparr>))"
proof (rule inv_observers_extend [OF i ids, of _ evs])
  let ?s' = "update_post pid ((delivery s pid)\<lparr> state := st' \<rparr>) (s\<lparr> trace := trace s @ evs \<rparr>)"
  have vp: "valid (s\<lparr> trace := trace s @ evs \<rparr>) pid"
    using moves_valid [OF m] by simp
  show "trace ?s' = trace s @ evs"
    by simp
  show "\<not> is_observer ev" if "ev \<in> set evs" for ev
    using m that by (auto simp: moves_def)
  show "prefix (internalEvent (client s)) (internalEvent (client ?s'))"
    by simp
  show "post_url (delivery ?s' q) = post_url (delivery s q) \<and>
        hookData (delivery ?s' q) = hookData (delivery s q)" for q
    by (simp add: delivery_update_post [OF vp])
qed

lemma moves_inv:
  assumes m: "moves s pid st' evs" and i: "invariant s"
  shows "invariant (update_post pid ((delivery s pid)\<lparr> state := st' \<rparr>) (s\<lparr> trace := trace s @ evs \<rparr>))"
  using i moves_inv_ids [OF m] moves_inv_fresh [OF m] moves_inv_resolved [OF m]
    moves_inv_rejected [OF m] moves_inv_promises [OF m] moves_inv_observers [OF m]
  by (simp add: invariant_def)

lemma trigger_inv:
  assumes i: "invariant s"
  shows "invariant (trigger x ty dat s)"
proof -
  let ?s' = "trigger x ty dat s"
  let ?t = "length (triggers s)"
  let ?hs = "getWebhooks (client s) ty"
  let ?pcs = "fst (trigger_map x ?t 0 ty dat ?hs s)"
  obtain evs where tr: "trace ?s' = trace s @ evs"
    and all: "\<forall>ev \<in> set evs. \<not> settlement ev \<and> \<not> is_observer ev \<and>
                (\<forall>q. event_post_id ev = Some q \<longrightarrow>
                   is_fetch ev \<and> fst q = ?t \<and> 0 \<le> snd q \<and> snd q < 0 + length ?hs)"
    using trigger_map_trace [of x ?t 0 ty dat ?hs s] unfolding trigger_trace by blast
  have ids: "is_fetch ev \<and> fst q = ?t \<and> snd q < length ?hs"
    if "ev \<in> set evs" "event_post_id ev = Some q" for ev q
    using bspec [OF all that(1)] that(2) by (cases q) auto
  have nos: "\<forall>ev \<in> set evs. \<not> is_observer ev"
    using all by blast
  have old: "valid s q" if "ev \<in> set (trace s)" "event_post_id ev = Some q" for ev q
    using inv_idsD [OF i] that by blast
  have oldv: "fst q < ?t" if "valid s q" for q
    using that by (simp add: valid_def)
  have newst: "state (delivery ?s' q) = Awaiting_fetch \<or> (\<exists>e. state (delivery ?s' q) = Post_rejected e)"
    if "fst q = ?t" "snd q < length ?hs" for q
    using that trigger_map_states [of "?pcs ! snd q" x ?t 0 ty dat ?hs s]
    by (simp add: delivery_trigger_new)
  have 1: "inv_ids ?s'"
    unfolding inv_ids_def tr using old ids by (auto simp: valid_trigger)
  have 2: "inv_fresh ?s'"
    unfolding inv_fresh_def tr
  proof (intro allI impI)
    fix q ev
    assume v: "valid ?s' q" and st: "state (delivery ?s' q) = Awaiting_fetch"
      and ev: "ev \<in> set (trace s @ evs)" and id: "event_post_id ev = Some q"
    show "is_fetch ev"
    proof (cases "ev \<in> set evs")
      case True
      then show ?thesis using ids id by blast
    next
      case False
      then have e: "ev \<in> set (trace s)" using ev by simp
      then have vq: "valid s q" using old id by blast
      then have "state (delivery s q) = Awaiting_fetch"
        using st oldv by (simp add: delivery_trigger_old)
      then show ?thesis
        using inv_freshD [OF i vq _ e id] by blast
    qed
  qed
  have 3: "inv_resolved ?s'"
    unfolding inv_resolved_def tr
  proof (intro allI impI)
    fix q r
    assume v: "valid ?s' q"
      and st: "state (delivery ?s' q) = Post_fulfilled r \<or> (\<exists>ks. state (delivery ?s' q) = Awaiting_observers r ks)"
    have vq: "valid s q"
      using v st newst [of q] by (auto simp: valid_trigger)
    have "state (delivery s q) = Post_fulfilled r \<or> (\<exists>ks. state (delivery s q) = Awaiting_observers r ks)"
      using st oldv [OF vq] by (simp add: delivery_trigger_old)
    then have "Ev_fetch_resolved q r \<in> set (trace s)"
      by (rule inv_resolvedD [OF i vq])
    then show "Ev_fetch_resolved q r \<in> set (trace s @ evs)"
      by simp
  qed
  have 4: "inv_rejected ?s'"
    unfolding inv_rejected_def tr
  proof (intro allI impI)
    fix q e
    assume "Ev_fetch_rejected q e \<in> set (trace s @ evs)"
    then have mem: "Ev_fetch_rejected q e \<in> set (trace s)"
      using ids [of "Ev_fetch_rejected q e" q] by auto
    then have vq: "fst q < ?t"
      using old [OF mem] oldv by simp
    have no: "Ev_observer q k u b r res \<notin> set evs" for k u b r res
      using ids [of "Ev_observer q k u b r res" q] by auto
    show "(\<exists>e'. state (delivery ?s' q) = Post_rejected e') \<and>
          (\<forall>k u b r res. Ev_observer q k u b r res \<notin> set (trace s @ evs))"
      using inv_rejectedD [OF i mem] no vq
      by (simp add: delivery_trigger_old)
  qed
  have 5: "inv_promises ?s'"
    using i promise_ok_Promise_all [of ?pcs]
    by (auto simp: invariant_def inv_promises_def trigger_triggers)
  have nobs: "\<not> is_observer ev" if "ev \<in> set evs" for ev
    using nos that by blast
  have 6: "inv_observers ?s'"
  proof (rule inv_observers_extend [OF _ _ tr nobs])
    show "inv_observers s" "inv_ids s"
      using i by (simp_all add: invariant_def)
    show "prefix (internalEvent (client s)) (internalEvent (client ?s'))"
      by simp
    show "post_url (delivery ?s' q) = post_url (delivery s q) \<and>
          hookData (delivery ?s' q) = hookData (delivery s q)" if "valid s q" for q
      using oldv [OF that] by (simp add: delivery_trigger_old)
  qed
  show ?thesis
    using 1 2 3 4 5 6 by (simp add: invariant_def)
qed

lemma inv_new_system: "invariant (new_system props)"
  by (simp add: invariant_def inv_ids_def inv_fresh_def inv_resolved_def inv_rejected_def
        inv_promises_def inv_observers_def new_system_def valid_def)

lemma add_inv:
  assumes i: "invariant s"
  shows "invariant (s\<lparr> client := add u evs (client s) \<rparr>)"
proof -
  have c: "internalEvent (add u evs (client s)) = internalEvent (client s)"
    by (simp add: add_def)
  show ?thesis
    using i
    by (simp add: invariant_def inv_ids_def inv_fresh_def inv_resolved_def inv_rejected_def
          inv_promises_def inv_observers_def c)
qed

lemma onDone_inv:
  assumes i: "invariant s"
  shows "invariant (s\<lparr> client := onDone callback (client s) \<rparr>)"
proof -
  let ?s' = "s\<lparr> client := onDone callback (client s) \<rparr>"
  have "inv_observers ?s'"
  proof (rule inv_observers_extend [of s _ "[]"])
    show "inv_observers s" "inv_ids s"
      using i by (simp_all add: invariant_def)
  qed (simp_all add: onDone_def)
  then show ?thesis
    using i
    by (simp add: invariant_def inv_ids_def inv_fresh_def inv_resolved_def inv_rejected_def
          inv_promises_def)
qed

subsection \<open>Calls made from inside an observer\<close>

lemma reenter_inv: "invariant s \<Longrightarrow> invariant (reenter x c s)"
  by (cases c) (simp_all add: add_inv onDone_inv trigger_inv)

lemma grows_refl [simp]: "grows s s"
  by (auto simp: grows_def intro: exI [of _ "[]"])

lemma grows_trans:
  assumes 1: "grows s s1" and 2: "grows s1 s2"
  shows "grows s s2"
proof -
  from 1 obtain evs1 where t1: "trace s1 = trace s @ evs1"
    and e1: "\<forall>ev \<in> set evs1. \<not> settlement ev \<and> \<not> is_observer ev \<and>
               (\<forall>q. event_post_id ev = Some q \<longrightarrow> \<not> valid s q)"
    and v1: "\<And>q. valid s q \<Longrightarrow> valid s1 q \<and> delivery s1 q = delivery s q"
    and c1: "extends (client s) (client s1)"
    unfolding grows_def by blast
  from 2 obtain evs2 where t2: "trace s2 = trace s1 @ evs2"
    and e2: "\<forall>ev \<in> set evs2. \<not> settlement ev \<and> \<not> is_observer ev \<and>
               (\<forall>q. event_post_id ev = Some q \<longrightarrow> \<not> valid s1 q)"
    and v2: "\<And>q. valid s1 q \<Longrightarrow> valid s2 q \<and> delivery s2 q = delivery s1 q"
    and c2: "extends (client s1) (client s2)"
    unfolding grows_def by blast
  have "trace s2 = trace s @ (evs1 @ evs2)"
    by (simp add: t1 t2)
  moreover have "\<forall>ev \<in> set (evs1 @ evs2). \<not> settlement ev \<and> \<not> is_observer ev \<and>
               (\<forall>q. event_post_id ev = Some q \<longrightarrow> \<not> valid s q)"
    using e1 e2 v1 by auto
  moreover have "\<forall>q. valid s q \<longrightarrow> valid s2 q \<and> delivery s2 q = delivery s q"
    using v1 v2 by auto
  ultimately show ?thesis
    unfolding grows_def using extends_trans [OF c1 c2] by blast
qed

lemma trigger_grows: "grows s (trigger x ty dat s)"
proof -
  let ?t = "length (triggers s)"
  let ?hs = "getWebhooks (client s) ty"
  obtain evs where tr: "trace (trigger x ty dat s) = trace s @ evs"
    and all: "\<forall>ev \<in> set evs. \<not> settlement ev \<and> \<not> is_observer ev \<and>
                (\<forall>q. event_post_id ev = Some q \<longrightarrow>
                   is_fetch ev \<and> fst q = ?t \<and> 0 \<le> snd q \<and> snd q < 0 + length ?hs)"
    using trigger_map_trace [of x ?t 0 ty dat ?hs s] unfolding trigger_trace by blast
  have "\<forall>ev \<in> set evs. \<not> settlement ev \<and> \<not> is_observer ev \<and>
          (\<forall>q. event_post_id ev = Some q \<longrightarrow> \<not> valid s q)"
    using all by (fastforce simp: valid_def)
  moreover have "valid (trigger x ty dat s) q \<and> delivery (trigger x ty dat s) q = delivery s q"
    if "valid s q" for q
  proof -
    have "fst q < ?t"
      using that by (simp add: valid_def)
    then show ?thesis
      using that by (simp add: valid_trigger delivery_trigger_old)
  qed
  ultimately show ?thesis
    unfolding grows_def using tr by auto
qed

lemma reenter_grows: "grows s (reenter x c s)"
proof (cases c)
  case (Call_trigger ty dat)
  then show ?thesis by (simp add: trigger_grows)
qed (auto simp: grows_def extends_def add_def onDone_def Let_def intro: exI [of _ "[]"])

lemma fold_reenter_grows: "grows s (fold (reenter x) cs s)"
proof (induction cs arbitrary: s)
  case Nil
  show ?case by simp
next
  case (Cons c cs)
  show ?case
    using grows_trans [OF reenter_grows [of s x c] Cons.IH [of "reenter x c s"]] by simp
qed

lemma fold_reenter_inv: "invariant s \<Longrightarrow> invariant (fold (reenter x) cs s)"
  by (induction cs arbitrary: s) (simp_all add: reenter_inv)

subsection \<open>The call of one observer\<close>

lemma handed_0 [simp]: "handed cbs u b r 0 = b"
  by (simp add: handed_def)

lemma handed_Suc:
  "k < length cbs \<Longrightarrow>
     handed cbs u b r (Suc k) = envelope ((cbs ! k) u (handed cbs u b r k) r)"
  by (simp add: handed_def take_Suc_conv_app_nth)

lemma calling_invariant: "calling cbs pid u b r xs k s \<Longrightarrow> invariant s"
  by (simp add: calling_def)

lemma calling_log:
  assumes c: "calling cbs pid u b r xs k s" and k: "k < length cbs"
  shows "calling cbs pid u b r xs (Suc k) (s\<lparr> trace := trace s @ [observer_call cbs pid u b r k] \<rparr>)"
proof -
  let ?ev = "observer_call cbs pid u b r k"
  let ?s1 = "s\<lparr> trace := trace s @ [?ev] \<rparr>"
  let ?ie = "internalEvent (client s)"
  from c obtain mid where i: "invariant s" and v: "valid s pid"
    and st: "state (delivery s pid) \<noteq> Awaiting_fetch"
    and nr: "\<And>e. Ev_fetch_rejected pid e \<notin> set (trace s)"
    and u: "u = post_url (delivery s pid)" and b: "b = hookData (delivery s pid)"
    and pre: "prefix cbs ?ie"
    and tr: "trace s = xs @ Ev_fetch_resolved pid r # mid"
    and mid: "\<forall>ev \<in> set mid. \<not> settlement ev"
    and pr: "filter (\<lambda>ev. event_post_id ev = Some pid) mid = map (observer_call cbs pid u b r) [0..<k]"
    unfolding calling_def by blast
  have ev: "?ev = Ev_observer pid k u (handed cbs u b r k) r
                    (outcome ((cbs ! k) u (handed cbs u b r k) r))"
    by (simp add: observer_call_def)
  have id: "event_post_id ?ev = Some pid" and ns: "\<not> settlement ?ev"
    by (simp_all add: ev)
  have oc: "observer_call ?ie pid u b r j = observer_call cbs pid u b r j" if "j \<le> k" for j
    using observer_call_prefix [OF pre, of j pid u b r] that k by simp
  have 1: "inv_ids ?s1"
    using i v id unfolding invariant_def inv_ids_def by auto
  have 2: "inv_fresh ?s1"
    unfolding inv_fresh_def
  proof (intro allI impI)
    fix q e
    assume vq: "valid ?s1 q" and sq: "state (delivery ?s1 q) = Awaiting_fetch"
      and e: "e \<in> set (trace ?s1)" and eid: "event_post_id e = Some q"
    have "q \<noteq> pid"
      using sq st by auto
    then have "e \<in> set (trace s)"
      using e eid id by auto
    then show "is_fetch e"
      using inv_freshD [OF i, of q e] vq sq eid by simp
  qed
  have 3: "inv_resolved ?s1"
    using i unfolding invariant_def inv_resolved_def by auto
  have 4: "inv_rejected ?s1"
    unfolding inv_rejected_def
  proof (intro allI impI)
    fix q e
    assume "Ev_fetch_rejected q e \<in> set (trace ?s1)"
    then have mem: "Ev_fetch_rejected q e \<in> set (trace s)"
      by (simp add: ev)
    then have "q \<noteq> pid"
      using nr by auto
    then show "(\<exists>e'. state (delivery ?s1 q) = Post_rejected e') \<and>
               (\<forall>k u b r res. Ev_observer q k u b r res \<notin> set (trace ?s1))"
      using inv_rejectedD [OF i mem] by (simp add: ev)
  qed
  have 5: "inv_promises ?s1"
    using i by (simp add: invariant_def inv_promises_def)
  have same: "client ?s1 = client s" "\<And>q. delivery ?s1 q = delivery s q"
    by simp_all
  have 6: "inv_observers ?s1"
    unfolding inv_observers_def
  proof (intro allI impI)
    fix ys zs q j u' b' r' res
    assume "trace ?s1 = ys @ Ev_observer q j u' b' r' res # zs"
    then have eq: "ys @ Ev_observer q j u' b' r' res # zs = trace s @ [?ev]"
      by simp
    from append_Cons_eq_append [OF eq]
    show "j < length (internalEvent (client ?s1)) \<and> u' = post_url (delivery ?s1 q) \<and>
        Ev_observer q j u' b' r' res =
          observer_call (internalEvent (client ?s1)) q u' (hookData (delivery ?s1 q)) r' j \<and>
        (\<exists>xs' mid. ys = xs' @ Ev_fetch_resolved q r' # mid \<and>
            (\<forall>ev \<in> set mid. \<not> settlement ev) \<and>
            filter (\<lambda>ev. event_post_id ev = Some q) mid =
              map (observer_call (internalEvent (client ?s1)) q u' (hookData (delivery ?s1 q)) r') [0..<j])"
    proof (elim disjE exE conjE)
      fix ws
      assume "trace s = ys @ Ev_observer q j u' b' r' res # ws"
      from inv_observersD [OF i this] show ?thesis
        unfolding same .
    next
      fix ws
      assume ys: "ys = trace s @ ws" and new: "[?ev] = ws @ Ev_observer q j u' b' r' res # zs"
      then have ws: "ws = []" and e: "Ev_observer q j u' b' r' res = ?ev"
        by (simp_all add: Cons_eq_append_conv)
      from e have q: "q = pid" and j: "j = k" and u': "u' = u" and r': "r' = r"
        by (simp_all add: ev)
      have m: "map (observer_call ?ie pid u b r) [0..<k] = map (observer_call cbs pid u b r) [0..<k]"
        by (rule map_cong) (simp_all add: oc)
      have kl: "k < length ?ie"
        using k pre by (auto simp: prefix_def)
      have ys': "ys = xs @ Ev_fetch_resolved pid r # mid"
        using ys ws tr by simp
      have A: "Ev_observer q j u' b' r' res =
                 observer_call ?ie q u' (hookData (delivery s q)) r' j"
        unfolding q j u' r' b [symmetric] oc [OF order_refl] using e by (simp add: q j u' r')
      have B: "filter (\<lambda>ev. event_post_id ev = Some q) mid =
                 map (observer_call ?ie q u' (hookData (delivery s q)) r') [0..<j]"
        unfolding q j u' r' b [symmetric] m by (rule pr)
      show ?thesis
        unfolding same using kl A B ys' mid u by (auto simp: q j u' r')
    qed
  qed
  have inv1: "invariant ?s1"
    using 1 2 3 4 5 6 by (simp add: invariant_def)
  have "trace ?s1 = xs @ Ev_fetch_resolved pid r # (mid @ [?ev])"
    by (simp add: tr)
  moreover have "\<forall>e \<in> set (mid @ [?ev]). \<not> settlement e"
    using mid ns by auto
  moreover have "filter (\<lambda>e. event_post_id e = Some pid) (mid @ [?ev]) =
                 map (observer_call cbs pid u b r) [0..<Suc k]"
    using pr id by simp
  ultimately have "\<exists>mid. trace ?s1 = xs @ Ev_fetch_resolved pid r # mid \<and>
        (\<forall>e \<in> set mid. \<not> settlement e) \<and>
        filter (\<lambda>e. event_post_id e = Some pid) mid = map (observer_call cbs pid u b r) [0..<Suc k]"
    by blast
  then show ?thesis
    unfolding calling_def using inv1 v st nr u b pre by (simp add: observer_call_def)
qed

lemma calling_grows:
  assumes c: "calling cbs pid u b r xs k s" and g: "grows s s'" and i': "invariant s'"
  shows "calling cbs pid u b r xs k s'"
proof -
  from c obtain mid where v: "valid s pid"
    and st: "state (delivery s pid) \<noteq> Awaiting_fetch"
    and nr: "\<And>e. Ev_fetch_rejected pid e \<notin> set (trace s)"
    and u: "u = post_url (delivery s pid)" and b: "b = hookData (delivery s pid)"
    and pre: "prefix cbs (internalEvent (client s))"
    and tr: "trace s = xs @ Ev_fetch_resolved pid r # mid"
    and mid: "\<forall>ev \<in> set mid. \<not> settlement ev"
    and pr: "filter (\<lambda>ev. event_post_id ev = Some pid) mid = map (observer_call cbs pid u b r) [0..<k]"
    unfolding calling_def by blast
  from g obtain evs where t': "trace s' = trace s @ evs"
    and e: "\<forall>ev \<in> set evs. \<not> settlement ev \<and> \<not> is_observer ev \<and>
              (\<forall>q. event_post_id ev = Some q \<longrightarrow> \<not> valid s q)"
    and keep: "\<And>q. valid s q \<Longrightarrow> valid s' q \<and> delivery s' q = delivery s q"
    and ext: "extends (client s) (client s')"
    unfolding grows_def by blast
  have other: "event_post_id ev \<noteq> Some pid" if "ev \<in> set evs" for ev
    using e that v by blast
  have nrej: "Ev_fetch_rejected pid e' \<notin> set evs" for e'
    using e by (metis settlement.simps(2))
  have "trace s' = xs @ Ev_fetch_resolved pid r # (mid @ evs)"
    by (simp add: t' tr)
  moreover have "\<forall>ev \<in> set (mid @ evs). \<not> settlement ev"
    using mid e by auto
  moreover have "filter (\<lambda>ev. event_post_id ev = Some pid) evs = []"
    using other by (simp add: filter_empty_conv)
  then have "filter (\<lambda>ev. event_post_id ev = Some pid) (mid @ evs) =
             map (observer_call cbs pid u b r) [0..<k]"
    using pr by simp
  ultimately have "\<exists>mid. trace s' = xs @ Ev_fetch_resolved pid r # mid \<and>
        (\<forall>ev \<in> set mid. \<not> settlement ev) \<and>
        filter (\<lambda>ev. event_post_id ev = Some pid) mid = map (observer_call cbs pid u b r) [0..<k]"
    by blast
  moreover have "prefix cbs (internalEvent (client s'))"
    using pre ext prefix_order.trans by (auto simp: extends_def)
  moreover have "\<forall>e'. Ev_fetch_rejected pid e' \<notin> set (trace s')"
    using nr nrej by (simp add: t')
  ultimately show ?thesis
    unfolding calling_def using i' keep [OF v] st u b by simp
qed

lemma call_observer_calling:
  assumes c: "calling cbs pid u b r xs k s" and k: "k < length cbs"
  shows "calling cbs pid u b r xs (Suc k)
           (call_observer x (cbs ! k) k pid u (handed cbs u b r k) r s)"
proof -
  let ?s1 = "s\<lparr> trace := trace s @ [observer_call cbs pid u b r k] \<rparr>"
  let ?cs = "calls ((cbs ! k) u (handed cbs u b r k) r)"
  have 1: "calling cbs pid u b r xs (Suc k) ?s1"
    by (rule calling_log [OF c k])
  have "calling cbs pid u b r xs (Suc k) (fold (reenter x) ?cs ?s1)"
    by (rule calling_grows [OF 1 fold_reenter_grows fold_reenter_inv [OF calling_invariant [OF 1]]])
  then show ?thesis
    by (simp add: call_observer_def observer_call_def)
qed

subsection \<open>The calls of the observers of a delivery\<close>

lemma drop_Cons_nth: "k < length cbs \<Longrightarrow> drop k cbs = cbs ! k # drop (Suc k) cbs"
  by (simp add: Cons_nth_drop_Suc)

lemma call_observers_calling:
  assumes "calling cbs pid u b r xs k s" and "k \<le> length cbs"
  shows "\<exists>m. calling cbs pid u b r xs m
               (snd (call_observers x (drop k cbs) k pid u (handed cbs u b r k) r s))"
  using assms
proof (induction "length cbs - k" arbitrary: k s)
  case 0
  then show ?case by auto
next
  case (Suc n)
  then have k: "k < length cbs" by simp
  let ?s1 = "call_observer x (cbs ! k) k pid u (handed cbs u b r k) r s"
  have c1: "calling cbs pid u b r xs (Suc k) ?s1"
    by (rule call_observer_calling [OF Suc.prems(1) k])
  have n: "n = length cbs - Suc k" using Suc.hyps(2) by simp
  from Suc.hyps(1) [OF n c1] k
  have ih: "\<exists>m. calling cbs pid u b r xs m
               (snd (call_observers x (drop (Suc k) cbs) (Suc k) pid u (handed cbs u b r (Suc k)) r ?s1))"
    by simp
  show ?case
    unfolding drop_Cons_nth [OF k] call_observers_snd_Cons
    using c1 ih by (cases "outcome ((cbs ! k) u (handed cbs u b r k) r)") (auto simp: handed_Suc [OF k])
qed

lemma call_observers_no_throw:
  assumes "calling cbs pid u b r xs k s" and "k \<le> length cbs"
    and "\<And>j e. k \<le> j \<Longrightarrow> j < length cbs \<Longrightarrow>
           outcome ((cbs ! j) u (handed cbs u b r j) r) \<noteq> Cb_throws e"
  shows "fst (call_observers x (drop k cbs) k pid u (handed cbs u b r k) r s) =
           Inr (filter (\<lambda>j. outcome ((cbs ! j) u (handed cbs u b r j) r) = Cb_promise) [k..<length cbs]) \<and>
         calling cbs pid u b r xs (length cbs)
           (snd (call_observers x (drop k cbs) k pid u (handed cbs u b r k) r s))"
  using assms
proof (induction "length cbs - k" arbitrary: k s)
  case 0
  then show ?case by auto
next
  case (Suc n)
  then have k: "k < length cbs" by simp
  let ?s1 = "call_observer x (cbs ! k) k pid u (handed cbs u b r k) r s"
  have c1: "calling cbs pid u b r xs (Suc k) ?s1"
    by (rule call_observer_calling [OF Suc.prems(1) k])
  have n: "n = length cbs - Suc k" using Suc.hyps(2) by simp
  have nt: "outcome ((cbs ! j) u (handed cbs u b r j) r) \<noteq> Cb_throws e"
    if "Suc k \<le> j" "j < length cbs" for j e
    using Suc.prems(3) [of j e] that by simp
  from Suc.hyps(1) [OF n c1 _ nt] k
  have ih: "fst (call_observers x (drop (Suc k) cbs) (Suc k) pid u (handed cbs u b r (Suc k)) r ?s1) =
           Inr (filter (\<lambda>j. outcome ((cbs ! j) u (handed cbs u b r j) r) = Cb_promise) [Suc k..<length cbs]) \<and>
         calling cbs pid u b r xs (length cbs)
           (snd (call_observers x (drop (Suc k) cbs) (Suc k) pid u (handed cbs u b r (Suc k)) r ?s1))"
    by simp
  have ok: "outcome ((cbs ! k) u (handed cbs u b r k) r) \<noteq> Cb_throws e" for e
    using Suc.prems(3) [of k e] k by simp
  show ?case
    unfolding drop_Cons_nth [OF k] call_observers_snd_Cons call_observers_fst_Cons
    using ih ok
    by (cases "outcome ((cbs ! k) u (handed cbs u b r k) r)")
       (auto simp: handed_Suc [OF k] upt_conv_Cons [OF k])
qed

lemma call_observers_throw:
  assumes "calling cbs pid u b r xs k s" and "k \<le> j" and "j < length cbs"
    and "outcome ((cbs ! j) u (handed cbs u b r j) r) = Cb_throws e"
    and "\<And>i e'. k \<le> i \<Longrightarrow> i < j \<Longrightarrow>
           outcome ((cbs ! i) u (handed cbs u b r i) r) \<noteq> Cb_throws e'"
  shows "fst (call_observers x (drop k cbs) k pid u (handed cbs u b r k) r s) = Inl e \<and>
         calling cbs pid u b r xs (Suc j)
           (snd (call_observers x (drop k cbs) k pid u (handed cbs u b r k) r s))"
  using assms
proof (induction "j - k" arbitrary: k s)
  case 0
  then have kj: "k = j" by simp
  have k: "k < length cbs" using 0 by simp
  have "calling cbs pid u b r xs (Suc k)
          (call_observer x (cbs ! k) k pid u (handed cbs u b r k) r s)"
    by (rule call_observer_calling [OF "0.prems"(1) k])
  then show ?case
    unfolding drop_Cons_nth [OF k] call_observers_snd_Cons call_observers_fst_Cons
    using "0.prems"(4) kj by simp
next
  case (Suc n)
  then have kj: "k < j" and k: "k < length cbs" by simp_all
  let ?s1 = "call_observer x (cbs ! k) k pid u (handed cbs u b r k) r s"
  have c1: "calling cbs pid u b r xs (Suc k) ?s1"
    by (rule call_observer_calling [OF Suc.prems(1) k])
  have n: "n = j - Suc k" using Suc.hyps(2) by simp
  have nt: "outcome ((cbs ! i) u (handed cbs u b r i) r) \<noteq> Cb_throws e'"
    if "Suc k \<le> i" "i < j" for i e'
    using Suc.prems(5) [of i e'] that by simp
  from Suc.hyps(1) [OF n c1 _ Suc.prems(3) Suc.prems(4) nt] kj
  have ih: "fst (call_observers x (drop (Suc k) cbs) (Suc k) pid u (handed cbs u b r (Suc k)) r ?s1) = Inl e \<and>
         calling cbs pid u b r xs (Suc j)
           (snd (call_observers x (drop (Suc k) cbs) (Suc k) pid u (handed cbs u b r (Suc k)) r ?s1))"
    by simp
  have ok: "outcome ((cbs ! k) u (handed cbs u b r k) r) \<noteq> Cb_throws e'" for e'
    using Suc.prems(5) [of k e'] kj by simp
  show ?case
    unfolding drop_Cons_nth [OF k] call_observers_snd_Cons call_observers_fst_Cons
    using ih ok
    by (cases "outcome ((cbs ! k) u (handed cbs u b r k) r)") (auto simp: handed_Suc [OF k])
qed

subsection \<open>Writing a call back before or after the observers\<close>

lemma post_triggers_upd:
  "post x q u d (s\<lparr> triggers := T \<rparr>) =
     (fst (post x q u d s), (snd (post x q u d s))\<lparr> triggers := T \<rparr>)"
  by (simp add: post_def Let_def split: sum.splits)

lemma post_uuid_upd:
  "post x q u d (s\<lparr> triggers := T, uuid_calls := n \<rparr>) =
     (fst (post x q u d (s\<lparr> uuid_calls := n \<rparr>)),
      (snd (post x q u d (s\<lparr> uuid_calls := n \<rparr>)))\<lparr> triggers := T \<rparr>)"
  by (simp add: post_def Let_def split: sum.splits)

lemma trigger_map_triggers_upd:
  "trigger_map x t i ty dat hs (s\<lparr> triggers := T \<rparr>) =
     (fst (trigger_map x t i ty dat hs s), (snd (trigger_map x t i ty dat hs s))\<lparr> triggers := T \<rparr>)"
proof (induction hs arbitrary: i s)
  case Nil
  show ?case by simp
next
  case (Cons h hs)
  show ?case
    by (simp add: Let_def case_prod_beta post_uuid_upd Cons.IH)
qed

lemma trigger_update_post:
  assumes v: "valid s pid"
  shows "trigger x ty dat (update_post pid pc s) = update_post pid pc (trigger x ty dat s)"
  using v
  by (simp add: trigger_def update_post_def Let_def case_prod_beta trigger_map_triggers_upd
        valid_def list_update_append1 nth_append)

lemma reenter_update_post:
  "valid s pid \<Longrightarrow> reenter x c (update_post pid pc s) = update_post pid pc (reenter x c s)"
  by (cases c) (simp_all add: trigger_update_post, simp_all add: update_post_def Let_def)

lemma growsD:
  "grows s s' \<Longrightarrow> valid s q \<Longrightarrow> valid s' q \<and> delivery s' q = delivery s q"
  unfolding grows_def by blast

lemma reenter_valid: "valid s q \<Longrightarrow> valid (reenter x c s) q"
  using growsD [OF reenter_grows [of s x c]] by simp

lemma fold_reenter_update_post:
  "valid s pid \<Longrightarrow>
     fold (reenter x) cs (update_post pid pc s) = update_post pid pc (fold (reenter x) cs s)"
proof (induction cs arbitrary: s)
  case Nil
  show ?case by simp
next
  case (Cons c cs)
  show ?case
    using Cons.IH [OF reenter_valid [OF Cons.prems]] by (simp add: reenter_update_post [OF Cons.prems])
qed

lemma update_post_trace_upd:
  "update_post pid pc (s\<lparr> trace := tr \<rparr>) = (update_post pid pc s)\<lparr> trace := tr \<rparr>"
  by (simp add: update_post_def Let_def)

lemma call_observer_update_post:
  "valid s pid \<Longrightarrow>
     call_observer x cb k q u b r (update_post pid pc s) =
       update_post pid pc (call_observer x cb k q u b r s)"
  using fold_reenter_update_post [of "s\<lparr> trace := trace s @ [Ev_observer q k u b r (outcome (cb u b r))] \<rparr>"
          pid x "calls (cb u b r)" pc]
  by (simp add: call_observer_def update_post_trace_upd)

lemma call_observer_keeps:
  "valid s q \<Longrightarrow> valid (call_observer x cb k pid u b r s) q \<and>
                  delivery (call_observer x cb k pid u b r s) q = delivery s q"
  using growsD [OF fold_reenter_grows [of "s\<lparr> trace := trace s @ [Ev_observer pid k u b r (outcome (cb u b r))] \<rparr>"
          x "calls (cb u b r)"], of q]
  by (simp add: call_observer_def)

lemma call_observers_keeps:
  "valid s q \<Longrightarrow> valid (snd (call_observers x cbs k pid u b r s)) q \<and>
                  delivery (snd (call_observers x cbs k pid u b r s)) q = delivery s q"
proof (induction cbs arbitrary: k b s)
  case Nil
  then show ?case by simp
next
  case (Cons cb cbs)
  let ?s1 = "call_observer x cb k pid u b r s"
  have 1: "valid ?s1 q" "delivery ?s1 q = delivery s q"
    using call_observer_keeps [OF Cons.prems] by simp_all
  show ?case
    unfolding call_observers_snd_Cons
    using 1 Cons.IH [OF 1(1)] by (cases "outcome (cb u b r)") simp_all
qed

lemma call_observers_update_post:
  "valid s pid \<Longrightarrow>
     call_observers x cbs k q u b r (update_post pid pc s) =
       (fst (call_observers x cbs k q u b r s),
        update_post pid pc (snd (call_observers x cbs k q u b r s)))"
proof (induction cbs arbitrary: k b s)
  case Nil
  show ?case by simp
next
  case (Cons cb cbs)
  let ?s1 = "call_observer x cb k q u b r s"
  have v1: "valid ?s1 pid"
    using call_observer_keeps [OF Cons.prems] by simp
  show ?case
    using Cons.IH [OF v1]
    by (cases "outcome (cb u b r)")
       (simp_all add: Let_def case_prod_beta call_observer_update_post [OF Cons.prems])
qed

subsection \<open>The invariants hold along every run\<close>

lemma post_after_observer_moves:
  "post_after_observer pid k outcome' s = s \<or>
   (\<exists>st' evs. moves s pid st' evs \<and>
      post_after_observer pid k outcome' s =
        update_post pid ((delivery s pid)\<lparr> state := st' \<rparr>) (s\<lparr> trace := trace s @ evs \<rparr>))"
proof (cases "valid s pid")
  case False
  then show ?thesis
    by (simp add: post_after_observer_def)
next
  case True
  show ?thesis
  proof (cases "state (delivery s pid)")
    case (Awaiting_observers r ks)
    show ?thesis
    proof (cases "k \<in> set ks")
      case False
      then show ?thesis
        using True Awaiting_observers by (simp add: post_after_observer_def)
    next
      case k: True
      have m: "moves s pid st' [Ev_observer_settled pid k outcome']"
        if "st' = Post_fulfilled r \<or> (\<exists>ks'. st' = Awaiting_observers r ks') \<or> (\<exists>e. st' = Post_rejected e)"
        for st'
        using True Awaiting_observers that by (simp add: moves_def)
      let ?st = "case outcome' of
                   Inl err \<Rightarrow> Post_rejected err
                 | Inr v \<Rightarrow> if removeAll k ks = [] then Post_fulfilled r
                           else Awaiting_observers r (removeAll k ks)"
      have "moves s pid ?st [Ev_observer_settled pid k outcome']"
        by (rule m) (simp split: sum.splits)
      moreover have "post_after_observer pid k outcome' s =
          update_post pid ((delivery s pid)\<lparr> state := ?st \<rparr>)
            (s\<lparr> trace := trace s @ [Ev_observer_settled pid k outcome'] \<rparr>)"
        using True Awaiting_observers k
        by (simp add: post_after_observer_def Let_def split: sum.splits)
      ultimately show ?thesis
        by blast
    qed
  qed (simp_all add: post_after_observer_def True)
qed

lemma post_after_fetch_rejected:
  "valid s pid \<Longrightarrow> state (delivery s pid) = Awaiting_fetch \<Longrightarrow>
     moves s pid (Post_rejected e) [Ev_fetch_rejected pid e] \<and>
     post_after_fetch x pid (Inl e) s =
       update_post pid ((delivery s pid)\<lparr> state := Post_rejected e \<rparr>)
         (s\<lparr> trace := trace s @ [Ev_fetch_rejected pid e] \<rparr>)"
  by (simp add: moves_def post_after_fetch_def Let_def)

text \<open>the state in which the observers are called, with the call already written back\<close>

lemma post_after_fetch_resolved:
  assumes i: "invariant s" and v: "valid s pid" and st: "state (delivery s pid) = Awaiting_fetch"
  shows "\<exists>st'. (st' = Post_fulfilled r \<or> (\<exists>ks. st' = Awaiting_observers r ks) \<or>
                 (\<exists>e. st' = Post_rejected e)) \<and>
           st' = (case fst (call_observers x (internalEvent (client s)) 0 pid
                               (post_url (delivery s pid)) (hookData (delivery s pid)) r
                               (s\<lparr> trace := trace s @ [Ev_fetch_resolved pid r] \<rparr>)) of
                    Inl e \<Rightarrow> Post_rejected e
                  | Inr [] \<Rightarrow> Post_fulfilled r
                  | Inr (k # ks) \<Rightarrow> Awaiting_observers r (k # ks)) \<and>
           calling (internalEvent (client s)) pid (post_url (delivery s pid))
             (hookData (delivery s pid)) r (trace s) 0
             (update_post pid ((delivery s pid)\<lparr> state := st' \<rparr>)
                (s\<lparr> trace := trace s @ [Ev_fetch_resolved pid r] \<rparr>)) \<and>
           post_after_fetch x pid (Inr r) s =
             snd (call_observers x (internalEvent (client s)) 0 pid
                    (post_url (delivery s pid)) (hookData (delivery s pid)) r
                    (update_post pid ((delivery s pid)\<lparr> state := st' \<rparr>)
                       (s\<lparr> trace := trace s @ [Ev_fetch_resolved pid r] \<rparr>))) \<and>
           fst (call_observers x (internalEvent (client s)) 0 pid
                    (post_url (delivery s pid)) (hookData (delivery s pid)) r
                    (update_post pid ((delivery s pid)\<lparr> state := st' \<rparr>)
                       (s\<lparr> trace := trace s @ [Ev_fetch_resolved pid r] \<rparr>))) =
           fst (call_observers x (internalEvent (client s)) 0 pid
                               (post_url (delivery s pid)) (hookData (delivery s pid)) r
                               (s\<lparr> trace := trace s @ [Ev_fetch_resolved pid r] \<rparr>))"
proof -
  let ?cbs = "internalEvent (client s)" and ?u = "post_url (delivery s pid)"
    and ?b = "hookData (delivery s pid)"
  let ?s0 = "s\<lparr> trace := trace s @ [Ev_fetch_resolved pid r] \<rparr>"
  let ?res = "fst (call_observers x ?cbs 0 pid ?u ?b r ?s0)"
  let ?st = "case ?res of Inl e \<Rightarrow> Post_rejected e | Inr [] \<Rightarrow> Post_fulfilled r
             | Inr (k # ks) \<Rightarrow> Awaiting_observers r (k # ks)"
  let ?sa = "update_post pid ((delivery s pid)\<lparr> state := ?st \<rparr>) ?s0"
  have shape: "?st = Post_fulfilled r \<or> (\<exists>ks. ?st = Awaiting_observers r ks) \<or>
               (\<exists>e. ?st = Post_rejected e)"
    by (auto split: sum.splits list.splits)
  have m: "moves s pid ?st [Ev_fetch_resolved pid r]"
    using v st shape by (simp add: moves_def)
  have ia: "invariant ?sa"
    by (rule moves_inv [OF m i])
  have v0: "valid ?s0 pid"
    using v by simp
  have da: "delivery ?sa pid = (delivery s pid)\<lparr> state := ?st \<rparr>"
    by (simp add: delivery_update_post [OF v0])
  have nf: "?st \<noteq> Awaiting_fetch"
    by (rule moves_not_fresh [OF m])
  have nr: "Ev_fetch_rejected pid e \<notin> set (trace ?sa)" for e
  proof
    assume "Ev_fetch_rejected pid e \<in> set (trace ?sa)"
    then have mem: "Ev_fetch_rejected pid e \<in> set (trace s)"
      by simp
    from inv_freshD [OF i v st mem] show False
      by simp
  qed
  have c: "calling ?cbs pid ?u ?b r (trace s) 0 ?sa"
    unfolding calling_def using ia v nf nr by (simp add: da)
  have comm: "call_observers x ?cbs 0 pid ?u ?b r ?sa =
                (?res, update_post pid ((delivery s pid)\<lparr> state := ?st \<rparr>)
                         (snd (call_observers x ?cbs 0 pid ?u ?b r ?s0)))"
    by (rule call_observers_update_post [OF v0])
  have "post_after_fetch x pid (Inr r) s = snd (call_observers x ?cbs 0 pid ?u ?b r ?sa)"
    using v st by (simp add: comm post_after_fetch_def Let_def case_prod_beta)
  then show ?thesis
    using shape c comm by (intro exI [of _ ?st]) simp
qed

lemma post_after_fetch_inv:
  assumes i: "invariant s"
  shows "invariant (post_after_fetch x pid outcome' s)"
proof (cases "valid s pid \<and> state (delivery s pid) = Awaiting_fetch")
  case False
  then show ?thesis
    using i by (auto simp: post_after_fetch_def)
next
  case True
  then have v: "valid s pid" and st: "state (delivery s pid) = Awaiting_fetch"
    by simp_all
  show ?thesis
  proof (cases outcome')
    case (Inl e)
    then show ?thesis
      using post_after_fetch_rejected [OF v st, of e x] moves_inv [OF _ i, of pid] by simp
  next
    case (Inr r)
    from post_after_fetch_resolved [OF i v st, of r x] obtain st'
      where c: "calling (internalEvent (client s)) pid (post_url (delivery s pid))
             (hookData (delivery s pid)) r (trace s) 0
             (update_post pid ((delivery s pid)\<lparr> state := st' \<rparr>)
                (s\<lparr> trace := trace s @ [Ev_fetch_resolved pid r] \<rparr>))"
        and eq: "post_after_fetch x pid (Inr r) s =
             snd (call_observers x (internalEvent (client s)) 0 pid
                    (post_url (delivery s pid)) (hookData (delivery s pid)) r
                    (update_post pid ((delivery s pid)\<lparr> state := st' \<rparr>)
                       (s\<lparr> trace := trace s @ [Ev_fetch_resolved pid r] \<rparr>)))"
      by blast
    from call_observers_calling [OF c, of x] obtain m
      where "calling (internalEvent (client s)) pid (post_url (delivery s pid))
               (hookData (delivery s pid)) r (trace s) m (post_after_fetch x pid (Inr r) s)"
      unfolding eq by (auto simp: handed_0)
    then show ?thesis
      unfolding Inr by (rule calling_invariant)
  qed
qed

lemma step_inv: "invariant s \<Longrightarrow> invariant (step x a s)"
proof (cases a)
  case (Add u evs)
  assume "invariant s"
  then show ?thesis using Add by (simp add: add_inv)
next
  case (OnDone callback)
  assume "invariant s"
  then show ?thesis using OnDone by (simp add: onDone_inv)
next
  case (Trigger ty dat)
  assume "invariant s"
  then show ?thesis using Trigger by (simp add: trigger_inv)
next
  case (Fetch_settles pid outcome')
  assume "invariant s"
  then show ?thesis
    using Fetch_settles by (simp add: post_after_fetch_inv)
next
  case (Observer_settles pid k outcome')
  assume "invariant s"
  then show ?thesis
    using Observer_settles post_after_observer_moves [of pid k outcome' s] moves_inv [of s pid]
    by auto
qed

lemma run_inv: "invariant s \<Longrightarrow> invariant (run x acts s)"
  by (induction acts arbitrary: s) (simp_all add: step_inv)

lemma reachable_inv: "invariant (run x acts (new_system props))"
  by (rule run_inv [OF inv_new_system])

subsection \<open>What never changes in a \<open>trigger\<close> call\<close>

lemma envelopes_trace_update [simp]: "envelopes (s\<lparr> trace := tr \<rparr>) = envelopes s"
  by (simp add: envelopes_def)

lemma envelopes_client_update [simp]: "envelopes (s\<lparr> client := c \<rparr>) = envelopes s"
  by (simp add: envelopes_def)

lemma envelopes_update_post:
  assumes v: "valid s pid"
  shows "envelopes (update_post pid ((delivery s pid)\<lparr> state := st' \<rparr>) s) = envelopes s"
proof -
  obtain t i where pid: "pid = (t, i)"
    by (cases pid)
  have t: "t < length (triggers s)" and i: "i < length (deliveries (triggers s ! t))"
    using v by (simp_all add: valid_def pid)
  have d: "map (\<lambda>pc. (post_url pc, hookData pc))
             ((deliveries (triggers s ! t))[i := (deliveries (triggers s ! t) ! i)\<lparr> state := st' \<rparr>]) =
           map (\<lambda>pc. (post_url pc, hookData pc)) (deliveries (triggers s ! t))"
    using i by (simp add: map_update list_update_same_conv)
  show ?thesis
    using t d
    by (simp add: envelopes_def update_post_def Let_def pid delivery_def map_update
          list_update_same_conv)
qed

lemma envelopes_trigger: "prefix (envelopes s) (envelopes (trigger x ty dat s))"
  by (simp add: envelopes_def trigger_triggers)

lemma envelopes_reenter: "prefix (envelopes s) (envelopes (reenter x c s))"
  by (cases c) (simp_all add: envelopes_trigger)

lemma envelopes_fold_reenter: "prefix (envelopes s) (envelopes (fold (reenter x) cs s))"
proof (induction cs arbitrary: s)
  case Nil
  show ?case by simp
next
  case (Cons c cs)
  show ?case
    using prefix_order.trans [OF envelopes_reenter [of s x c] Cons.IH [of "reenter x c s"]]
    by simp
qed

lemma envelopes_call_observer:
  "prefix (envelopes s) (envelopes (call_observer x cb k pid u b r s))"
  using envelopes_fold_reenter
          [of "s\<lparr> trace := trace s @ [Ev_observer pid k u b r (outcome (cb u b r))] \<rparr>" x
              "calls (cb u b r)"]
  by (simp add: call_observer_def)

lemma envelopes_call_observers:
  "prefix (envelopes s) (envelopes (snd (call_observers x cbs k pid u b r s)))"
proof (induction cbs arbitrary: k b s)
  case Nil
  show ?case by simp
next
  case (Cons cb cbs)
  let ?s1 = "call_observer x cb k pid u b r s"
  have 1: "prefix (envelopes s) (envelopes ?s1)"
    by (rule envelopes_call_observer)
  show ?case
  proof (cases "outcome (cb u b r)")
    case (Cb_throws e)
    then show ?thesis
      using 1 by (simp add: call_observers_snd_Cons del: call_observers.simps)
  next
    case Cb_void
    then show ?thesis
      using prefix_order.trans [OF 1 Cons.IH [of ?s1 "Suc k" "envelope (cb u b r)"]]
      by (simp add: call_observers_snd_Cons del: call_observers.simps)
  next
    case Cb_promise
    then show ?thesis
      using prefix_order.trans [OF 1 Cons.IH [of ?s1 "Suc k" "envelope (cb u b r)"]]
      by (simp add: call_observers_snd_Cons del: call_observers.simps)
  qed
qed

lemma envelopes_post_after_fetch:
  "prefix (envelopes s) (envelopes (post_after_fetch x pid outcome' s))"
proof (cases "valid s pid \<and> state (delivery s pid) = Awaiting_fetch")
  case False
  then show ?thesis
    by (auto simp: post_after_fetch_def)
next
  case True
  then have v: "valid s pid" and st: "state (delivery s pid) = Awaiting_fetch"
    by simp_all
  show ?thesis
  proof (cases outcome')
    case (Inl e)
    have v0: "valid (s\<lparr> trace := trace s @ [Ev_fetch_rejected pid e] \<rparr>) pid"
      using v by simp
    show ?thesis
      using envelopes_update_post [OF v0, of "Post_rejected e"] v st
      by (simp add: Inl post_after_fetch_def Let_def)
  next
    case (Inr r)
    let ?s0 = "s\<lparr> trace := trace s @ [Ev_fetch_resolved pid r] \<rparr>"
    let ?c = "call_observers x (internalEvent (client s)) 0 pid (post_url (delivery s pid))
                (hookData (delivery s pid)) r ?s0"
    have v0: "valid ?s0 pid"
      using v by simp
    have k: "valid (snd ?c) pid" "delivery (snd ?c) pid = delivery s pid"
      using call_observers_keeps [OF v0, of x "internalEvent (client s)" 0 pid
              "post_url (delivery s pid)" "hookData (delivery s pid)" r]
      by simp_all
    have p: "prefix (envelopes s) (envelopes (snd ?c))"
      using envelopes_call_observers [of ?s0 x "internalEvent (client s)" 0 pid
              "post_url (delivery s pid)" "hookData (delivery s pid)" r]
      by simp
    have "envelopes (post_after_fetch x pid (Inr r) s) = envelopes (snd ?c)"
      using envelopes_update_post [OF k(1)] v st
      by (simp add: post_after_fetch_def Let_def case_prod_beta k(2))
    then show ?thesis
      using p Inr by simp
  qed
qed

lemma envelopes_post_after_observer:
  "envelopes (post_after_observer pid k outcome' s) = envelopes s"
  using post_after_observer_moves [of pid k outcome' s]
proof (elim disjE exE conjE)
  assume "post_after_observer pid k outcome' s = s"
  then show ?thesis by simp
next
  fix st' evs
  assume m: "moves s pid st' evs"
    and eq: "post_after_observer pid k outcome' s =
       update_post pid ((delivery s pid)\<lparr> state := st' \<rparr>) (s\<lparr> trace := trace s @ evs \<rparr>)"
  have v0: "valid (s\<lparr> trace := trace s @ evs \<rparr>) pid"
    using moves_valid [OF m] by simp
  show ?thesis
    using envelopes_update_post [OF v0, of st'] by (simp add: eq)
qed

lemma step_envelopes: "prefix (envelopes s) (envelopes (step x a s))"
  by (cases a)
     (simp_all add: envelopes_trigger envelopes_post_after_fetch envelopes_post_after_observer)

lemma run_envelopes: "prefix (envelopes s) (envelopes (run x acts s))"
proof (induction acts arbitrary: s)
  case Nil
  show ?case by simp
next
  case (Cons a acts)
  show ?case
    using prefix_order.trans [OF step_envelopes [of s x a] Cons.IH [of "step x a s"]]
    by simp
qed

lemma prefix_envelopesD:
  assumes p: "prefix (envelopes s) (envelopes s')" and t: "t < length (triggers s)"
  shows "t < length (triggers s') \<and>
         map post_url (deliveries (triggers s' ! t)) = map post_url (deliveries (triggers s ! t)) \<and>
         map hookData (deliveries (triggers s' ! t)) = map hookData (deliveries (triggers s ! t))"
proof -
  from p obtain zs where e: "envelopes s' = envelopes s @ zs"
    by (auto simp: prefix_def)
  have l: "t < length (triggers s')"
    using arg_cong [OF e, of length] t by (simp add: envelopes_def)
  have lt: "t < length (envelopes s)"
    using t by (simp add: envelopes_def)
  have "envelopes s' ! t = envelopes s ! t"
    unfolding e using lt by (simp add: nth_append)
  then have m: "map (\<lambda>pc. (post_url pc, hookData pc)) (deliveries (triggers s' ! t)) =
             map (\<lambda>pc. (post_url pc, hookData pc)) (deliveries (triggers s ! t))"
    using t l by (simp add: envelopes_def)
  have "map fst (map (\<lambda>pc. (post_url pc, hookData pc)) (deliveries (triggers s' ! t))) =
        map fst (map (\<lambda>pc. (post_url pc, hookData pc)) (deliveries (triggers s ! t)))"
       "map snd (map (\<lambda>pc. (post_url pc, hookData pc)) (deliveries (triggers s' ! t))) =
        map snd (map (\<lambda>pc. (post_url pc, hookData pc)) (deliveries (triggers s ! t)))"
    using m by simp_all
  then show ?thesis
    using l by (simp add: comp_def)
qed

lemma run_frozen:
  "t < length (triggers s) \<Longrightarrow>
     t < length (triggers (run x acts s)) \<and>
     map post_url (deliveries (triggers (run x acts s) ! t)) = map post_url (deliveries (triggers s ! t)) \<and>
     map hookData (deliveries (triggers (run x acts s) ! t)) = map hookData (deliveries (triggers s ! t))"
  by (rule prefix_envelopesD [OF run_envelopes])



lemma promise_ok_empty:
  "promise_ok tc \<Longrightarrow> deliveries tc = [] \<Longrightarrow> tc = \<lparr> deliveries = [], result = Fulfilled [] \<rparr>"
  by (cases tc; cases "result tc") (auto simp: promise_ok_def)

lemma run_empty_call:
  assumes i: "invariant s" and t: "t < length (triggers s)"
    and e: "deliveries (triggers s ! t) = []"
  shows "triggers (run x acts s) ! t = \<lparr> deliveries = [], result = Fulfilled [] \<rparr>"
proof -
  have f: "t < length (triggers (run x acts s))" "deliveries (triggers (run x acts s) ! t) = []"
    using run_frozen [OF t, of x acts] e by simp_all
  have "promise_ok (triggers (run x acts s) ! t)"
    by (rule inv_promisesD [OF run_inv [OF i] f(1)])
  then show ?thesis
    using f(2) by (rule promise_ok_empty)
qed

subsection \<open>When the response arrives\<close>






text \<open>The step in which the response arrives, when no observer throws and when one does.\<close>

lemma post_after_fetch_all_called:
  assumes i: "invariant s" and v: "valid s pid" and st: "state (delivery s pid) = Awaiting_fetch"
    and cbs: "cbs = internalEvent (client s)" and u: "u = post_url (delivery s pid)"
    and b: "b = hookData (delivery s pid)"
    and nt: "\<And>j e. j < length cbs \<Longrightarrow>
               outcome ((cbs ! j) u (handed cbs u b r j) r) \<noteq> Cb_throws e"
  shows "calling cbs pid u b r (trace s) (length cbs) (post_after_fetch x pid (Inr r) s) \<and>
         delivery (post_after_fetch x pid (Inr r) s) pid =
           (delivery s pid)\<lparr> state :=
              (case filter (\<lambda>j. outcome ((cbs ! j) u (handed cbs u b r j) r) = Cb_promise)
                      [0..<length cbs] of
                 [] \<Rightarrow> Post_fulfilled r
               | k # ks \<Rightarrow> Awaiting_observers r (k # ks)) \<rparr> \<and>
         (\<forall>q. valid s q \<longrightarrow> valid (post_after_fetch x pid (Inr r) s) q \<and>
               (q \<noteq> pid \<longrightarrow> delivery (post_after_fetch x pid (Inr r) s) q = delivery s q))"
proof -
  let ?s0 = "s\<lparr> trace := trace s @ [Ev_fetch_resolved pid r] \<rparr>"
  from post_after_fetch_resolved [OF i v st, of r x] obtain st'
    where st': "st' = (case fst (call_observers x cbs 0 pid u b r ?s0) of
                    Inl e \<Rightarrow> Post_rejected e
                  | Inr [] \<Rightarrow> Post_fulfilled r
                  | Inr (k # ks) \<Rightarrow> Awaiting_observers r (k # ks))"
      and c: "calling cbs pid u b r (trace s) 0 (update_post pid ((delivery s pid)\<lparr> state := st' \<rparr>) ?s0)"
      and eq: "post_after_fetch x pid (Inr r) s =
             snd (call_observers x cbs 0 pid u b r
                    (update_post pid ((delivery s pid)\<lparr> state := st' \<rparr>) ?s0))"
      and fs: "fst (call_observers x cbs 0 pid u b r
                    (update_post pid ((delivery s pid)\<lparr> state := st' \<rparr>) ?s0)) =
               fst (call_observers x cbs 0 pid u b r ?s0)"
    unfolding cbs u b by blast
  let ?sa = "update_post pid ((delivery s pid)\<lparr> state := st' \<rparr>) ?s0"
  have v0: "valid ?s0 pid"
    using v by simp
  from call_observers_no_throw [OF c, of x] nt
  have f: "fst (call_observers x cbs 0 pid u b r ?sa) =
             Inr (filter (\<lambda>j. outcome ((cbs ! j) u (handed cbs u b r j) r) = Cb_promise) [0..<length cbs])"
    and c': "calling cbs pid u b r (trace s) (length cbs) (snd (call_observers x cbs 0 pid u b r ?sa))"
    by simp_all
  have s': "st' = (case filter (\<lambda>j. outcome ((cbs ! j) u (handed cbs u b r j) r) = Cb_promise)
                      [0..<length cbs] of
                 [] \<Rightarrow> Post_fulfilled r
               | k # ks \<Rightarrow> Awaiting_observers r (k # ks))"
    using st' trans [OF fs [symmetric] f] by simp
  have keep: "valid (post_after_fetch x pid (Inr r) s) q \<and>
              delivery (post_after_fetch x pid (Inr r) s) q = delivery ?sa q" if "valid s q" for q
    unfolding eq using call_observers_keeps [of ?sa q x cbs 0 pid u b r] that by simp
  have d: "delivery ?sa q = (if q = pid then (delivery s pid)\<lparr> state := st' \<rparr> else delivery s q)" for q
    using delivery_update_post [OF v0, of "(delivery s pid)\<lparr> state := st' \<rparr>" q] by simp
  have "calling cbs pid u b r (trace s) (length cbs) (post_after_fetch x pid (Inr r) s)"
    unfolding eq by (rule c')
  then show ?thesis
    using keep d v s' by simp
qed

lemma post_after_fetch_thrown:
  assumes i: "invariant s" and v: "valid s pid" and st: "state (delivery s pid) = Awaiting_fetch"
    and cbs: "cbs = internalEvent (client s)" and u: "u = post_url (delivery s pid)"
    and b: "b = hookData (delivery s pid)"
    and j: "j < length cbs"
    and th: "outcome ((cbs ! j) u (handed cbs u b r j) r) = Cb_throws e"
    and nt: "\<And>i e'. i < j \<Longrightarrow> outcome ((cbs ! i) u (handed cbs u b r i) r) \<noteq> Cb_throws e'"
  shows "calling cbs pid u b r (trace s) (Suc j) (post_after_fetch x pid (Inr r) s) \<and>
         delivery (post_after_fetch x pid (Inr r) s) pid =
           (delivery s pid)\<lparr> state := Post_rejected e \<rparr>"
proof -
  let ?s0 = "s\<lparr> trace := trace s @ [Ev_fetch_resolved pid r] \<rparr>"
  from post_after_fetch_resolved [OF i v st, of r x] obtain st'
    where st': "st' = (case fst (call_observers x cbs 0 pid u b r ?s0) of
                    Inl e \<Rightarrow> Post_rejected e
                  | Inr [] \<Rightarrow> Post_fulfilled r
                  | Inr (k # ks) \<Rightarrow> Awaiting_observers r (k # ks))"
      and c: "calling cbs pid u b r (trace s) 0 (update_post pid ((delivery s pid)\<lparr> state := st' \<rparr>) ?s0)"
      and eq: "post_after_fetch x pid (Inr r) s =
             snd (call_observers x cbs 0 pid u b r
                    (update_post pid ((delivery s pid)\<lparr> state := st' \<rparr>) ?s0))"
      and fs: "fst (call_observers x cbs 0 pid u b r
                    (update_post pid ((delivery s pid)\<lparr> state := st' \<rparr>) ?s0)) =
               fst (call_observers x cbs 0 pid u b r ?s0)"
    unfolding cbs u b by blast
  let ?sa = "update_post pid ((delivery s pid)\<lparr> state := st' \<rparr>) ?s0"
  have v0: "valid ?s0 pid"
    using v by simp
  from call_observers_throw [OF c _ j th, of x] nt
  have f: "fst (call_observers x cbs 0 pid u b r ?sa) = Inl e"
    and c': "calling cbs pid u b r (trace s) (Suc j) (snd (call_observers x cbs 0 pid u b r ?sa))"
    by simp_all
  have s': "st' = Post_rejected e"
    using st' trans [OF fs [symmetric] f] by simp
  have keep: "delivery (post_after_fetch x pid (Inr r) s) pid = delivery ?sa pid"
    unfolding eq using call_observers_keeps [of ?sa pid x cbs 0 pid u b r] v by simp
  have d: "delivery ?sa pid = (delivery s pid)\<lparr> state := st' \<rparr>"
    using delivery_update_post [OF v0, of "(delivery s pid)\<lparr> state := st' \<rparr>" pid] by simp
  have "calling cbs pid u b r (trace s) (Suc j) (post_after_fetch x pid (Inr r) s)"
    unfolding eq by (rule c')
  then show ?thesis
    using keep d s' by simp
qed

lemma callingD:
  "calling cbs pid u b r xs k s \<Longrightarrow>
     \<exists>mid. trace s = xs @ Ev_fetch_resolved pid r # mid \<and>
        (\<forall>ev \<in> set mid. \<not> settlement ev) \<and>
        filter (\<lambda>ev. event_post_id ev = Some pid) mid = map (observer_call cbs pid u b r) [0..<k]"
  unfolding calling_def by blast

subsection \<open>When the promises of the observers settle\<close>

lemma post_after_observer_awaited:
  "valid s pid \<Longrightarrow> state (delivery s pid) = Awaiting_observers r ks \<Longrightarrow> k \<in> set ks \<Longrightarrow>
     post_after_observer pid k outcome' s =
       update_post pid
         ((delivery s pid)\<lparr> state :=
            (case outcome' of
               Inl e \<Rightarrow> Post_rejected e
             | Inr _ \<Rightarrow> if removeAll k ks = [] then Post_fulfilled r
                        else Awaiting_observers r (removeAll k ks)) \<rparr>)
         (s\<lparr> trace := trace s @ [Ev_observer_settled pid k outcome'] \<rparr>)"
  by (simp add: post_after_observer_def Let_def split: sum.splits)

lemma post_after_observer_not_awaited:
  "state (delivery s pid) = Awaiting_observers r ks \<Longrightarrow> k \<notin> set ks \<Longrightarrow>
     post_after_observer pid k outcome' s = s"
  by (simp add: post_after_observer_def)

lemma post_after_observer_done:
  "state (delivery s pid) = Post_fulfilled r \<Longrightarrow> post_after_observer pid k outcome' s = s"
  by (simp add: post_after_observer_def)

lemma observers_done:
  "state (delivery s pid) = Post_fulfilled r \<Longrightarrow>
     run x (map (\<lambda>k. Observer_settles pid k outcome') order) s = s"
  by (induction order) (simp_all add: post_after_observer_done)

lemma observers_settle:
  assumes "valid s pid" and "state (delivery s pid) = Awaiting_observers r ks"
    and "ks \<noteq> []" and "set ks \<subseteq> set order"
  shows "delivery (run x (map (\<lambda>k. Observer_settles pid k (Inr ())) order) s) pid =
           (delivery s pid)\<lparr> state := Post_fulfilled r \<rparr> \<and>
         client (run x (map (\<lambda>k. Observer_settles pid k (Inr ())) order) s) = client s \<and>
         (\<forall>q. valid (run x (map (\<lambda>k. Observer_settles pid k (Inr ())) order) s) q = valid s q \<and>
              (q \<noteq> pid \<longrightarrow>
                 delivery (run x (map (\<lambda>k. Observer_settles pid k (Inr ())) order) s) q = delivery s q))"
  using assms
proof (induction order arbitrary: s ks)
  case Nil
  then show ?case by simp
next
  case (Cons k order)
  let ?f = "\<lambda>k. Observer_settles pid k (Inr ())"
  show ?case
  proof (cases "k \<in> set ks")
    case False
    then have sub: "set ks \<subseteq> set order"
      using Cons.prems(4) by auto
    have same: "post_after_observer pid k (Inr ()) s = s"
      by (rule post_after_observer_not_awaited [OF Cons.prems(2) False])
    from Cons.IH [OF Cons.prems(1,2,3) sub] show ?thesis
      by (simp add: same)
  next
    case True
    let ?st = "if removeAll k ks = [] then Post_fulfilled r else Awaiting_observers r (removeAll k ks)"
    let ?s0 = "s\<lparr> trace := trace s @ [Ev_observer_settled pid k (Inr ())] \<rparr>"
    let ?s1 = "update_post pid ((delivery s pid)\<lparr> state := ?st \<rparr>) ?s0"
    have eq: "post_after_observer pid k (Inr ()) s = ?s1"
      using post_after_observer_awaited [OF Cons.prems(1,2) True, of "Inr ()"] by simp
    have v0: "valid ?s0 pid"
      using Cons.prems(1) by simp
    have v1: "valid ?s1 q = valid s q" for q
      by simp
    have d1: "delivery ?s1 q = (if q = pid then (delivery s pid)\<lparr> state := ?st \<rparr> else delivery s q)" for q
      using delivery_update_post [OF v0, of "(delivery s pid)\<lparr> state := ?st \<rparr>" q] by simp
    have c1: "client ?s1 = client s"
      by simp
    show ?thesis
    proof (cases "removeAll k ks = []")
      case True
      have st1: "state (delivery ?s1 pid) = Post_fulfilled r"
        using d1 [of pid] True by simp
      have "run x (map ?f order) ?s1 = ?s1"
        by (rule observers_done [OF st1])
      then show ?thesis
        using True v1 d1 c1 by (simp add: eq)
    next
      case False
      have st1: "state (delivery ?s1 pid) = Awaiting_observers r (removeAll k ks)"
        using d1 [of pid] False by simp
      have sub: "set (removeAll k ks) \<subseteq> set order"
        using Cons.prems(4) by auto
      have v1': "valid ?s1 pid"
        using Cons.prems(1) by simp
      from Cons.IH [OF v1' st1 False sub] show ?thesis
        using v1 d1 c1 by (simp add: eq)
    qed
  qed
qed

subsection \<open>Schedules that fulfil the promise of a \<open>trigger\<close> call\<close>






subsection \<open>Evaluating the model\<close>

lemmas test_defs =
  test_props_def test_externals_def new_system_def constructor_def add_def onDone_def
  trigger_def getWebhooks_def post_def make_headers_def signature_header_def truthy_def
  getSignature_def verifySignature_def Let_def

lemmas run_defs =
  test_defs post_after_fetch_def post_after_observer_def update_post_def valid_def delivery_def
  settle_def call_observer_def async_observer_def sync_observer_def stamping_observer_def
  throwing_observer_def reentrant_observer_def

section \<open>The signer\<close>

text \<open>
  Claim C2.  Verifying the signature that \<open>getSignature\<close> computes for a secret and a body
  succeeds, and \<open>verifySignature\<close> accepts a signature exactly when it is equal, as a
  string, to the one \<open>getSignature\<close> computes.
\<close>

theorem verifySignature_iff:
  "verifySignature x sec (getSignature x sec b) b \<and>
   (verifySignature x sec sg b \<longleftrightarrow> getSignature x sec b = sg)"
  by (simp add: verifySignature_def)

section \<open>The subscription registry\<close>

text \<open>
  Claim C4.  For every registry and every event type, \<open>getWebhooks\<close> returns exactly the
  entries whose \<open>events\<close> filter is absent or lists the event type, in the order of the
  registry, and the registry is the same after the \<open>trigger\<close> call that reads it.
\<close>

theorem getWebhooks_matching:
  "getWebhooks c event =
     filter (\<lambda>entry. events entry = None \<or> event \<in> set (case events entry of Some evs \<Rightarrow> evs | None \<Rightarrow> []))
       (hooks c) \<and>
   subseq (getWebhooks c event) (hooks c) \<and>
   hooks (client (trigger x event dat s)) = hooks (client s)"
proof (intro conjI)
  have inc: "includes' evs event \<longleftrightarrow> event \<in> set evs" for evs
    by (induction evs) auto
  show "getWebhooks c event =
     filter (\<lambda>entry. events entry = None \<or> event \<in> set (case events entry of Some evs \<Rightarrow> evs | None \<Rightarrow> []))
       (hooks c)"
    unfolding getWebhooks_def
    by (rule filter_cong) (auto simp: inc split: option.splits)
  show "subseq (getWebhooks c event) (hooks c)"
    by (simp add: getWebhooks_def)
  show "hooks (client (trigger x event dat s)) = hooks (client s)"
    by simp
qed

section \<open>The configuration\<close>

text \<open>
  Claim C9.  After any sequence of \<open>add\<close>, \<open>$onDone\<close> and \<open>trigger\<close> calls, and of
  settlements of the promises they wait for, \<open>api_version\<close>, \<open>secret\<close>, \<open>mode\<close> and \<open>name\<close>
  have the values the constructor gave them, and they stay the same along any
  continuation of the run; the registry and the list of observers only grow at the end.
\<close>

theorem configuration_fixed:
  "client_api_version (client (run x acts (new_system props))) = props_api_version props \<and>
   secret (client (run x acts (new_system props))) = props_secret props \<and>
   mode (client (run x acts (new_system props))) =
     (case props_mode props of None \<Rightarrow> sandbox | Some m \<Rightarrow> m) \<and>
   name (client (run x acts (new_system props))) = props_name props \<and>
   client_api_version (client (run x (acts @ acts') (new_system props))) =
     client_api_version (client (run x acts (new_system props))) \<and>
   secret (client (run x (acts @ acts') (new_system props))) =
     secret (client (run x acts (new_system props))) \<and>
   mode (client (run x (acts @ acts') (new_system props))) =
     mode (client (run x acts (new_system props))) \<and>
   name (client (run x (acts @ acts') (new_system props))) =
     name (client (run x acts (new_system props))) \<and>
   prefix (hooks (client (run x acts (new_system props))))
          (hooks (client (run x (acts @ acts') (new_system props)))) \<and>
   prefix (internalEvent (client (run x acts (new_system props))))
          (internalEvent (client (run x (acts @ acts') (new_system props))))"
  using run_client_fields [of x acts "new_system props"]
        run_client_fields [of x acts' "run x acts (new_system props)"]
  by (simp add: run_append new_system_def constructor_def)

section \<open>Deliveries\<close>

text \<open>
  Claim C3.  In every delivery the envelope is serialised once, and the string that
  \<open>JSON.stringify\<close> returned is both the message given to the HMAC and the body of the
  request: the trace of a \<open>post\<close> call is one serialisation, then, unless it threw, one
  signature over its result and one request whose body is that result and whose
  signature header carries that signature.
\<close>

theorem post_signs_body_sent:
  "post x pid u d s = (pc, s') \<Longrightarrow>
     (case JSON_stringify x (hookData pc) of
        Inl e \<Rightarrow> trace s' = trace s @ [Ev_stringify (hookData pc)]
      | Inr b \<Rightarrow>
          \<exists>hs. trace s' = trace s @
                  [Ev_stringify (hookData pc),
                   Ev_hmac (secret (client s)) b,
                   Ev_fetch pid u \<lparr> http_method = ''POST'', headers = hs, body = b \<rparr>] \<and>
               map_of hs (signature_header (name (client s))) =
                 Some (hmac_sha256_hex x (secret (client s)) b))"
proof -
  assume p: "post x pid u d s = (pc, s')"
  have pc: "pc = fst (post x pid u d s)" and s': "s' = snd (post x pid u d s)"
    using p by simp_all
  show ?thesis
    unfolding pc s' post_trace [of x pid u d s]
    by (simp add: make_headers_eq getSignature_def signature_header_fresh split: sum.splits)
qed

theorem post_signs_body_sent_witness:
  "\<exists>hs. trace (snd (post test_externals (0, 0) ''https://myhook.com''
             \<lparr> idempotency_key = ''uuid-'', api_version = ''2020-08-27'',
               type = ''did_something'', data = None \<rparr> (new_system test_props))) =
          [Ev_stringify \<lparr> idempotency_key = ''uuid-'', api_version = ''2020-08-27'',
                          type = ''did_something'', data = None, id' = ''uuid-'',
                          created = 1648135876829 \<rparr>,
           Ev_hmac ''this-is-a-secret'' ''{uuid-,did_something,uuid-}'',
           Ev_fetch (0, 0) ''https://myhook.com''
             \<lparr> http_method = ''POST'', headers = hs, body = ''{uuid-,did_something,uuid-}'' \<rparr>] \<and>
        map_of hs ''X-Signature'' = Some ''hmac(this-is-a-secret,{uuid-,did_something,uuid-})''"
  using post_signs_body_sent [of test_externals "(0, 0)" "''https://myhook.com''"
      "\<lparr> idempotency_key = ''uuid-'', api_version = ''2020-08-27'',
         type = ''did_something'', data = None \<rparr>" "new_system test_props"
      "fst (post test_externals (0, 0) ''https://myhook.com''
             \<lparr> idempotency_key = ''uuid-'', api_version = ''2020-08-27'',
               type = ''did_something'', data = None \<rparr> (new_system test_props))"
      "snd (post test_externals (0, 0) ''https://myhook.com''
             \<lparr> idempotency_key = ''uuid-'', api_version = ''2020-08-27'',
               type = ''did_something'', data = None \<rparr> (new_system test_props))"]
  by (simp add: test_defs)

text \<open>
  Claim C8, amended.  The signature header of every request is named \<open>X-Signature\<close> when
  no name is configured or the configured name is the empty string, and
  \<open>X-<Name>-Signature\<close> when a non-empty name is configured; in each case its value
  verifies against the body sent, with the dispatcher's secret.
\<close>

theorem signature_header_verifies:
  "JSON_stringify x (hookData (fst (post x pid u d s))) = Inr b \<Longrightarrow>
     \<exists>options sg.
        trace (snd (post x pid u d s)) = trace s @
          [Ev_stringify (hookData (fst (post x pid u d s))),
           Ev_hmac (secret (client s)) b,
           Ev_fetch pid u options] \<and>
        body options = b \<and>
        map_of (headers options)
          (case name (client s) of
             None \<Rightarrow> ''X-Signature''
           | Some nm \<Rightarrow> if nm = [] then ''X-Signature'' else ''X-'' @ nm @ ''-Signature'') = Some sg \<and>
        verifySignature x (secret (client s)) sg (body options)"
  by (simp add: post_trace make_headers_eq signature_header_cases [symmetric]
        signature_header_fresh verifySignature_def)

theorem signature_header_verifies_witness:
  "\<exists>options sg.
      trace (run test_externals [Trigger ''did_something'' (Some ''John Doe'')]
              (new_system (test_props\<lparr> props_hooks := Some [\<lparr> url = ''https://localhost/webhook'', events = Some [''did_something''] \<rparr>],
                                        props_mode := Some production,
                                        props_name := Some ''EatingDots'' \<rparr>))) =
        [Ev_stringify \<lparr> idempotency_key = ''uuid-'', api_version = ''2020-08-27'',
                        type = ''did_something'', data = Some ''John Doe'', id' = ''uuid-i'',
                        created = 1648135876829 \<rparr>,
         Ev_hmac ''this-is-a-secret'' ''{uuid-,did_something,uuid-i}'',
         Ev_fetch (0, 0) ''https://localhost/webhook'' options] \<and>
      body options = ''{uuid-,did_something,uuid-i}'' \<and>
      map_of (headers options) ''X-EatingDots-Signature'' = Some sg \<and>
      verifySignature test_externals ''this-is-a-secret'' sg (body options)"
  using signature_header_verifies [of test_externals "(0, 0)" "''https://localhost/webhook''"
      "\<lparr> idempotency_key = ''uuid-'', api_version = ''2020-08-27'',
         type = ''did_something'', data = Some ''John Doe'' \<rparr>"
      "(new_system (test_props\<lparr> props_hooks := Some [\<lparr> url = ''https://localhost/webhook'', events = Some [''did_something''] \<rparr>],
                                        props_mode := Some production,
                                        props_name := Some ''EatingDots'' \<rparr>))\<lparr> uuid_calls := 1 \<rparr>"
      "''{uuid-,did_something,uuid-i}''"]
  by (simp add: test_defs)

text \<open>
  Claim C8 as stated asks for the header \<open>X-<Name>-Signature\<close> whenever a name is
  configured.  With the empty string as the name that is \<open>X--Signature\<close>; the request
  carries \<open>X-Signature\<close>.
\<close>

theorem empty_name_header_counterexample:
  "name (client (new_system (test_props\<lparr> props_name := Some [] \<rparr>) :: (string, string) system)) = Some [] \<and>
   map headers (requests (trace (run test_externals
       [Add ''https://myhook.com'' None, Trigger ''did_something'' None]
       (new_system (test_props\<lparr> props_name := Some [] \<rparr>) :: (string, string) system)))) =
     [[(''Content-Type'', ''application/json''),
       (''X-Environment'', ''sandbox''),
       (''X-Signature'', ''hmac(this-is-a-secret,{uuid-,did_something,uuid-i})'')]] \<and>
   ''X-'' @ [] @ ''-Signature'' \<noteq> ''X-Signature''"
  by (simp add: test_defs)

text \<open>
  Claim C10.  When the dispatcher's name is the empty string, a delivery sends what it
  sends when the name is absent, and the headers of its request are \<open>Content-Type\<close>,
  \<open>X-Environment\<close> and \<open>X-Signature\<close>.
\<close>

theorem empty_name_like_absent:
  "name (client s) = Some [] \<Longrightarrow>
     fst (post x pid u d s) = fst (post x pid u d (s\<lparr> client := (client s)\<lparr> name := None \<rparr> \<rparr>)) \<and>
     trace (snd (post x pid u d s)) =
       trace (snd (post x pid u d (s\<lparr> client := (client s)\<lparr> name := None \<rparr> \<rparr>))) \<and>
     (\<forall>options \<in> set (requests (drop (length (trace s)) (trace (snd (post x pid u d s))))).
        map fst (headers options) = [''Content-Type'', ''X-Environment'', ''X-Signature''])"
  by (simp add: post_def Let_def make_headers_eq signature_header_cases split: sum.splits)

theorem empty_name_like_absent_witness:
  "map (map fst \<circ> headers) (requests (trace (run test_externals
       [Add ''https://myhook.com'' None, Trigger ''did_something'' None]
       (new_system (test_props\<lparr> props_name := Some [] \<rparr>) :: (string, string) system)))) =
     [[''Content-Type'', ''X-Environment'', ''X-Signature'']]"
  using empty_name_like_absent [of
      "(new_system (test_props\<lparr> props_name := Some [] \<rparr>) :: (string, string) system)
         \<lparr> client := add ''https://myhook.com'' None (constructor (test_props\<lparr> props_name := Some [] \<rparr>)),
           uuid_calls := 1 \<rparr>"
      test_externals "(0, 0)" "''https://myhook.com''"
      "\<lparr> idempotency_key = ''uuid-'', api_version = ''2020-08-27'',
         type = ''did_something'', data = None \<rparr>"]
  by (simp add: test_defs)

section \<open>Identifiers of the envelopes\<close>

text \<open>
  Claim C1, amended.  The call of \<open>uuidv4()\<close> for the \<open>idempotency_key\<close> sits inside the
  function given to \<open>map\<close>, so a key is drawn for each matched hook, before \<open>post\<close> draws
  the \<open>id\<close>.  When \<open>uuidv4\<close> never repeats a value, any two envelopes of one \<open>trigger\<close>
  call differ in their \<open>idempotency_key\<close> and in their \<open>id\<close>.
\<close>

theorem idempotency_key_per_subscriber:
  "inj (uuidv4 x) \<Longrightarrow> j < k \<Longrightarrow> k < length (getWebhooks (client s) ty) \<Longrightarrow>
     idempotency_key (hookData (deliveries (last (triggers (trigger x ty dat s))) ! j)) \<noteq>
     idempotency_key (hookData (deliveries (last (triggers (trigger x ty dat s))) ! k)) \<and>
     id' (hookData (deliveries (last (triggers (trigger x ty dat s))) ! j)) \<noteq>
     id' (hookData (deliveries (last (triggers (trigger x ty dat s))) ! k))"
proof -
  assume i: "inj (uuidv4 x)" and jk: "j < k" and k: "k < length (getWebhooks (client s) ty)"
  have j: "j < length (getWebhooks (client s) ty)"
    using jk k by simp
  show ?thesis
    using trigger_map_nth [OF j, of x "length (triggers s)" 0 ty dat s]
          trigger_map_nth [OF k, of x "length (triggers s)" 0 ty dat s] jk
    by (simp add: trigger_triggers inj_eq [OF i])
qed

theorem idempotency_key_per_subscriber_witness:
  "map (idempotency_key \<circ> hookData) (deliveries (last (triggers (trigger test_externals ''did_something'' None
       (new_system (test_props\<lparr> props_hooks := Some [\<lparr> url = ''https://a.example'', events = None \<rparr>,
                                                         \<lparr> url = ''https://b.example'', events = None \<rparr>] \<rparr>)
          :: (string, string) system))))) = [''uuid-'', ''uuid-ii''] \<and>
   map (id' \<circ> hookData) (deliveries (last (triggers (trigger test_externals ''did_something'' None
       (new_system (test_props\<lparr> props_hooks := Some [\<lparr> url = ''https://a.example'', events = None \<rparr>,
                                                         \<lparr> url = ''https://b.example'', events = None \<rparr>] \<rparr>)
          :: (string, string) system))))) = [''uuid-i'', ''uuid-iii'']"
proof -
  have i: "inj (uuidv4 test_externals)"
    by (rule injI) (simp add: test_externals_def)
  have k: "1 < length (getWebhooks (client (new_system (test_props\<lparr> props_hooks := Some [\<lparr> url = ''https://a.example'', events = None \<rparr>,
                                                         \<lparr> url = ''https://b.example'', events = None \<rparr>] \<rparr>)
          :: (string, string) system)) ''did_something'')"
    by (simp add: test_defs)
  show ?thesis
    using idempotency_key_per_subscriber [OF i _ k, of 0 None]
    by (simp add: test_defs)
qed

text \<open>
  Claim C1 as stated has one \<open>idempotency_key\<close> for all envelopes of a \<open>trigger\<close> call.
  With two subscribers and no filter, the two envelopes carry the first and the third
  UUID drawn as their keys, the second and the fourth as their \<open>id\<close>s.
\<close>

theorem idempotency_key_shared_counterexample:
  "map hookData (deliveries (triggers (run test_externals
       [Add ''https://a.example'' None, Add ''https://b.example'' None,
        Trigger ''did_something'' (Some ''John Doe'')]
       (new_system test_props :: (string, string) system)) ! 0)) =
     [\<lparr> idempotency_key = ''uuid-'', api_version = ''2020-08-27'', type = ''did_something'',
        data = Some ''John Doe'', id' = ''uuid-i'', created = 1648135876829 \<rparr>,
      \<lparr> idempotency_key = ''uuid-ii'', api_version = ''2020-08-27'', type = ''did_something'',
        data = Some ''John Doe'', id' = ''uuid-iii'', created = 1648135876830 \<rparr>] \<and>
   ''uuid-'' \<noteq> ''uuid-ii''"
  by (simp add: test_defs)

section \<open>The promise of \<open>trigger\<close>\<close>



text \<open>
  Claim C6.  When no subscriber matches the event type, \<open>trigger\<close> only adds a call whose
  promise is fulfilled with the empty list: the trace is the same, so there is no request
  and no call of an observer, and no UUID is drawn.  Whatever happens afterwards, that
  promise stays fulfilled with the empty list and no event belongs to the call.
\<close>

theorem trigger_without_match:
  assumes s1: "s1 = run x acts0 (new_system props)"
    and none: "getWebhooks (client s1) ty = []"
    and s3: "s3 = run x acts1 (trigger x ty dat s1)"
  shows "trigger x ty dat s1 =
           s1\<lparr> triggers := triggers s1 @ [\<lparr> deliveries = [], result = Fulfilled [] \<rparr>] \<rparr> \<and>
         triggers s3 ! length (triggers s1) = \<lparr> deliveries = [], result = Fulfilled [] \<rparr> \<and>
         (\<forall>ev \<in> set (trace s3). \<forall>i. event_post_id ev \<noteq> Some (length (triggers s1), i))"
proof (intro conjI ballI allI)
  show tr: "trigger x ty dat s1 =
      s1\<lparr> triggers := triggers s1 @ [\<lparr> deliveries = [], result = Fulfilled [] \<rparr>] \<rparr>"
    by (simp add: trigger_def none)
  have i2: "invariant (trigger x ty dat s1)"
    using reachable_inv [of x "acts0 @ [Trigger ty dat]" props]
    by (simp add: s1 run_append)
  show call: "triggers s3 ! length (triggers s1) = \<lparr> deliveries = [], result = Fulfilled [] \<rparr>"
    unfolding s3
    by (rule run_empty_call [OF i2]) (simp_all add: tr)
  fix ev i
  assume ev: "ev \<in> set (trace s3)"
  have i3: "invariant s3"
    using reachable_inv [of x "acts0 @ Trigger ty dat # acts1" props]
    by (simp add: s1 s3 run_append)
  show "event_post_id ev \<noteq> Some (length (triggers s1), i)"
  proof
    assume "event_post_id ev = Some (length (triggers s1), i)"
    from inv_idsD [OF i3 ev this] show False
      using call by (simp add: valid_def)
  qed
qed

theorem trigger_without_match_witness:
  "trigger test_externals ''something_else'' None
     (run test_externals [Add ''https://myhook.com'' (Some [''did_something''])] (new_system test_props)) =
   (run test_externals [Add ''https://myhook.com'' (Some [''did_something''])] (new_system test_props))
     \<lparr> triggers := [\<lparr> deliveries = [], result = Fulfilled [] \<rparr>] \<rparr> \<and>
   trace (run test_externals [Trigger ''did_something'' None, Fetch_settles (1, 0) (Inr ''RESPONSE'')]
     (trigger test_externals ''something_else'' None
       (run test_externals [Add ''https://myhook.com'' (Some [''did_something''])] (new_system test_props)))) =
   [Ev_stringify \<lparr> idempotency_key = ''uuid-'', api_version = ''2020-08-27'',
                   type = ''did_something'', data = None, id' = ''uuid-i'',
                   created = 1648135876829 \<rparr>,
    Ev_hmac ''this-is-a-secret'' ''{uuid-,did_something,uuid-i}'',
    Ev_fetch (1, 0) ''https://myhook.com''
      \<lparr> http_method = ''POST'',
        headers = [(''Content-Type'', ''application/json''), (''X-Environment'', ''sandbox''),
                   (''X-Signature'', ''hmac(this-is-a-secret,{uuid-,did_something,uuid-i})'')],
        body = ''{uuid-,did_something,uuid-i}'' \<rparr>,
    Ev_fetch_resolved (1, 0) ''RESPONSE'']"
  using trigger_without_match [OF refl _ refl, of test_externals
      "[Add ''https://myhook.com'' (Some [''did_something''])]" test_props "''something_else''"
      None "[Trigger ''did_something'' None, Fetch_settles (1, 0) (Inr ''RESPONSE'')]"]
  by (simp add: run_defs)

section \<open>Completion observers\<close>

text \<open>
  Claim C7, amended.  The observers of a delivery are called in the step in which its
  transport call resolves, and in no other: a rejected transport call rejects the
  delivery with no observer called.  In that step the observers registered by then are
  called in the order of their registration, with the URL, the response and the envelope
  of the delivery, which is one object: each observer is handed it as the observers
  before it left it.  They are called one right after the other: nothing settles between
  the resolution and the last call, and these calls are all that happens to the delivery
  there.  An observer that throws ends the calls and
  rejects the delivery.  When none throws, the delivery waits for the promises that the
  observers returned, all together: it is fulfilled at once when there is none, when the
  last of them is fulfilled otherwise, in whichever order they are, and it is rejected
  when one of them is.  In every run, a call of the \<open>k\<close>-th observer for a delivery comes
  after the resolution of that delivery's transport call and the calls of the observers
  before it, with no settlement in between, and no observer is called for a delivery
  whose transport call was rejected.
\<close>

theorem observers_after_response:
  assumes s: "s = run x acts (new_system props)"
    and cbs: "cbs = internalEvent (client s)"
    and u: "u = post_url (delivery s pid)"
    and b: "b = hookData (delivery s pid)"
    and s': "s' = step x (Fetch_settles pid (Inr r)) s"
  shows
    "(valid s pid \<and> state (delivery s pid) = Awaiting_fetch \<longrightarrow>
        trace (step x (Fetch_settles pid (Inl e)) s) = trace s @ [Ev_fetch_rejected pid e] \<and>
        state (delivery (step x (Fetch_settles pid (Inl e)) s) pid) = Post_rejected e) \<and>
     (valid s pid \<and> state (delivery s pid) = Awaiting_fetch \<and>
      (\<forall>j < length cbs. \<forall>e. outcome ((cbs ! j) u (handed cbs u b r j) r) \<noteq> Cb_throws e) \<longrightarrow>
        (\<exists>mid. trace s' = trace s @ Ev_fetch_resolved pid r # mid \<and>
               (\<forall>ev \<in> set mid. \<not> settlement ev) \<and>
               filter (\<lambda>ev. event_post_id ev = Some pid) mid =
                 map (observer_call cbs pid u b r) [0..<length cbs]) \<and>
        state (delivery s' pid) =
          (case filter (\<lambda>j. outcome ((cbs ! j) u (handed cbs u b r j) r) = Cb_promise)
                  [0..<length cbs] of
             [] \<Rightarrow> Post_fulfilled r
           | k # ks \<Rightarrow> Awaiting_observers r (k # ks))) \<and>
     (valid s pid \<and> state (delivery s pid) = Awaiting_fetch \<and> j < length cbs \<and>
      outcome ((cbs ! j) u (handed cbs u b r j) r) = Cb_throws e \<and>
      (\<forall>i < j. \<forall>e'. outcome ((cbs ! i) u (handed cbs u b r i) r) \<noteq> Cb_throws e') \<longrightarrow>
        (\<exists>mid. trace s' = trace s @ Ev_fetch_resolved pid r # mid \<and>
               (\<forall>ev \<in> set mid. \<not> settlement ev) \<and>
               filter (\<lambda>ev. event_post_id ev = Some pid) mid =
                 map (observer_call cbs pid u b r) [0..<Suc j]) \<and>
        state (delivery s' pid) = Post_rejected e) \<and>
     (valid s pid \<and> state (delivery s pid) = Awaiting_observers r ks \<and> k \<in> set ks \<longrightarrow>
        state (delivery (step x (Observer_settles pid k (Inr ())) s) pid) =
          (if removeAll k ks = [] then Post_fulfilled r
           else Awaiting_observers r (removeAll k ks)) \<and>
        state (delivery (step x (Observer_settles pid k (Inl e)) s) pid) = Post_rejected e \<and>
        (set ks \<subseteq> set order \<longrightarrow>
           state (delivery (run x (map (\<lambda>k. Observer_settles pid k (Inr ())) order) s) pid) =
             Post_fulfilled r)) \<and>
     (trace s = xs @ Ev_observer q k' u' b' r' res # ys \<longrightarrow>
        k' < length cbs \<and> u' = post_url (delivery s q) \<and>
        Ev_observer q k' u' b' r' res = observer_call cbs q u' (hookData (delivery s q)) r' k' \<and>
        (\<exists>xs' mid. xs = xs' @ Ev_fetch_resolved q r' # mid \<and>
            (\<forall>ev \<in> set mid. \<not> settlement ev) \<and>
            filter (\<lambda>ev. event_post_id ev = Some q) mid =
              map (observer_call cbs q u' (hookData (delivery s q)) r') [0..<k']) \<and>
        (\<forall>e. Ev_fetch_rejected q e \<notin> set (trace s)))"
proof -
  have i: "invariant s"
    unfolding s by (rule reachable_inv)
  have p0: "trace (step x (Fetch_settles pid (Inl e)) s) = trace s @ [Ev_fetch_rejected pid e] \<and>
            state (delivery (step x (Fetch_settles pid (Inl e)) s) pid) = Post_rejected e"
    if v: "valid s pid" and st: "state (delivery s pid) = Awaiting_fetch"
  proof -
    have v0: "valid (s\<lparr> trace := trace s @ [Ev_fetch_rejected pid e] \<rparr>) pid"
      using v by simp
    show ?thesis
      using post_after_fetch_rejected [OF v st, of e x]
        delivery_update_post [OF v0, of "(delivery s pid)\<lparr> state := Post_rejected e \<rparr>" pid]
      by simp
  qed
  have p1: "(\<exists>mid. trace s' = trace s @ Ev_fetch_resolved pid r # mid \<and>
               (\<forall>ev \<in> set mid. \<not> settlement ev) \<and>
               filter (\<lambda>ev. event_post_id ev = Some pid) mid =
                 map (observer_call cbs pid u b r) [0..<length cbs]) \<and>
        state (delivery s' pid) =
          (case filter (\<lambda>j. outcome ((cbs ! j) u (handed cbs u b r j) r) = Cb_promise)
                  [0..<length cbs] of
             [] \<Rightarrow> Post_fulfilled r
           | k # ks \<Rightarrow> Awaiting_observers r (k # ks))"
    if v: "valid s pid" and st: "state (delivery s pid) = Awaiting_fetch"
      and nt: "\<forall>j < length cbs. \<forall>e. outcome ((cbs ! j) u (handed cbs u b r j) r) \<noteq> Cb_throws e"
  proof -
    have nt': "outcome ((cbs ! j) u (handed cbs u b r j) r) \<noteq> Cb_throws e"
      if "j < length cbs" for j e
      using nt that by blast
    note pa = post_after_fetch_all_called [OF i v st cbs u b nt', where x = x]
    have c: "calling cbs pid u b r (trace s) (length cbs) s'"
      unfolding s' using conjunct1 [OF pa] by simp
    have d: "delivery s' pid =
           (delivery s pid)\<lparr> state :=
              (case filter (\<lambda>j. outcome ((cbs ! j) u (handed cbs u b r j) r) = Cb_promise)
                      [0..<length cbs] of
                 [] \<Rightarrow> Post_fulfilled r
               | k # ks \<Rightarrow> Awaiting_observers r (k # ks)) \<rparr>"
      unfolding s' using conjunct1 [OF conjunct2 [OF pa]] by simp
    show ?thesis
      using callingD [OF c] by (simp add: d)
  qed
  have p2: "(\<exists>mid. trace s' = trace s @ Ev_fetch_resolved pid r # mid \<and>
               (\<forall>ev \<in> set mid. \<not> settlement ev) \<and>
               filter (\<lambda>ev. event_post_id ev = Some pid) mid =
                 map (observer_call cbs pid u b r) [0..<Suc j]) \<and>
        state (delivery s' pid) = Post_rejected e"
    if v: "valid s pid" and st: "state (delivery s pid) = Awaiting_fetch" and j: "j < length cbs"
      and th: "outcome ((cbs ! j) u (handed cbs u b r j) r) = Cb_throws e"
      and nt: "\<forall>i < j. \<forall>e'. outcome ((cbs ! i) u (handed cbs u b r i) r) \<noteq> Cb_throws e'"
  proof -
    have nt': "outcome ((cbs ! i) u (handed cbs u b r i) r) \<noteq> Cb_throws e'"
      if "i < j" for i e'
      using nt that by blast
    note pt = post_after_fetch_thrown [OF i v st cbs u b j th nt', where x = x]
    have c: "calling cbs pid u b r (trace s) (Suc j) s'"
      unfolding s' using conjunct1 [OF pt] by simp
    have d: "delivery s' pid = (delivery s pid)\<lparr> state := Post_rejected e \<rparr>"
      unfolding s' using conjunct2 [OF pt] by simp
    show ?thesis
      using callingD [OF c] by (simp add: d)
  qed
  have p3: "state (delivery (step x (Observer_settles pid k (Inr ())) s) pid) =
          (if removeAll k ks = [] then Post_fulfilled r
           else Awaiting_observers r (removeAll k ks)) \<and>
        state (delivery (step x (Observer_settles pid k (Inl e)) s) pid) = Post_rejected e \<and>
        (set ks \<subseteq> set order \<longrightarrow>
           state (delivery (run x (map (\<lambda>k. Observer_settles pid k (Inr ())) order) s) pid) =
             Post_fulfilled r)"
    if v: "valid s pid" and st: "state (delivery s pid) = Awaiting_observers r ks" and k: "k \<in> set ks"
  proof -
    have v0: "valid (s\<lparr> trace := trace s @ [Ev_observer_settled pid k outcome'] \<rparr>) pid" for outcome'
      using v by simp
    have 1: "state (delivery (step x (Observer_settles pid k (Inr ())) s) pid) =
          (if removeAll k ks = [] then Post_fulfilled r
           else Awaiting_observers r (removeAll k ks))"
      using post_after_observer_awaited [OF v st k, of "Inr ()"]
      by (simp add: delivery_update_post [OF v0])
    have 2: "state (delivery (step x (Observer_settles pid k (Inl e)) s) pid) = Post_rejected e"
      using post_after_observer_awaited [OF v st k, of "Inl e"]
      by (simp add: delivery_update_post [OF v0])
    have ne: "ks \<noteq> []"
      using k by auto
    have 3: "state (delivery (run x (map (\<lambda>k. Observer_settles pid k (Inr ())) order) s) pid) =
             Post_fulfilled r" if sub: "set ks \<subseteq> set order"
      using conjunct1 [OF observers_settle [OF v st ne sub, of x]] by simp
    show ?thesis
      using 1 2 3 by blast
  qed
  have p4: "k' < length cbs \<and> u' = post_url (delivery s q) \<and>
        Ev_observer q k' u' b' r' res = observer_call cbs q u' (hookData (delivery s q)) r' k' \<and>
        (\<exists>xs' mid. xs = xs' @ Ev_fetch_resolved q r' # mid \<and>
            (\<forall>ev \<in> set mid. \<not> settlement ev) \<and>
            filter (\<lambda>ev. event_post_id ev = Some q) mid =
              map (observer_call cbs q u' (hookData (delivery s q)) r') [0..<k']) \<and>
        (\<forall>e. Ev_fetch_rejected q e \<notin> set (trace s))"
    if tr: "trace s = xs @ Ev_observer q k' u' b' r' res # ys"
  proof -
    have mem: "Ev_observer q k' u' b' r' res \<in> set (trace s)"
      by (simp add: tr)
    have no: "\<forall>e. Ev_fetch_rejected q e \<notin> set (trace s)"
      using inv_rejectedD [OF i] mem by blast
    show ?thesis
      using inv_observersD [OF i tr] no unfolding cbs by blast
  qed
  show ?thesis
    using p0 p1 p2 p3 p4 by blast
qed

theorem observers_after_response_witness:
  "trace (step test_externals (Fetch_settles (0, 0) (Inl (Error ''ECONNREFUSED'')))
     (run test_externals
        [OnDone stamping_observer, OnDone reentrant_observer, OnDone async_observer,
         Add ''https://myhook.com'' None, Trigger ''did_something'' None]
        (new_system test_props))) =
   [Ev_stringify \<lparr> idempotency_key = ''uuid-'', api_version = ''2020-08-27'',
        type = ''did_something'', data = None, id' = ''uuid-i'',
        created = 1648135876829 \<rparr>,
    Ev_hmac ''this-is-a-secret'' ''{uuid-,did_something,uuid-i}'',
    Ev_fetch (0, 0) ''https://myhook.com''
      \<lparr> http_method = ''POST'',
        headers = [(''Content-Type'', ''application/json''), (''X-Environment'', ''sandbox''),
                   (''X-Signature'', ''hmac(this-is-a-secret,{uuid-,did_something,uuid-i})'')],
        body = ''{uuid-,did_something,uuid-i}'' \<rparr>,
    Ev_fetch_rejected (0, 0) (Error ''ECONNREFUSED'')] \<and>
   state (delivery (step test_externals (Fetch_settles (0, 0) (Inl (Error ''ECONNREFUSED'')))
     (run test_externals
        [OnDone stamping_observer, OnDone reentrant_observer, OnDone async_observer,
         Add ''https://myhook.com'' None, Trigger ''did_something'' None]
        (new_system test_props))) (0, 0)) = Post_rejected (Error ''ECONNREFUSED'') \<and>
   trace (step test_externals (Fetch_settles (0, 0) (Inr ''RESPONSE''))
     (run test_externals
        [OnDone stamping_observer, OnDone reentrant_observer, OnDone async_observer,
         Add ''https://myhook.com'' None, Trigger ''did_something'' None]
        (new_system test_props))) =
   [Ev_stringify \<lparr> idempotency_key = ''uuid-'', api_version = ''2020-08-27'',
        type = ''did_something'', data = None, id' = ''uuid-i'',
        created = 1648135876829 \<rparr>,
    Ev_hmac ''this-is-a-secret'' ''{uuid-,did_something,uuid-i}'',
    Ev_fetch (0, 0) ''https://myhook.com''
      \<lparr> http_method = ''POST'',
        headers = [(''Content-Type'', ''application/json''), (''X-Environment'', ''sandbox''),
                   (''X-Signature'', ''hmac(this-is-a-secret,{uuid-,did_something,uuid-i})'')],
        body = ''{uuid-,did_something,uuid-i}'' \<rparr>,
    Ev_fetch_resolved (0, 0) ''RESPONSE'',
    Ev_observer (0, 0) 0 ''https://myhook.com''
      \<lparr> idempotency_key = ''uuid-'', api_version = ''2020-08-27'',
        type = ''did_something'', data = None, id' = ''uuid-i'',
        created = 1648135876829 \<rparr> ''RESPONSE'' Cb_promise,
    Ev_observer (0, 0) 1 ''https://myhook.com''
      \<lparr> idempotency_key = ''uuid-'', api_version = ''2020-08-27'',
        type = ''did_something'', data = Some ''seen'', id' = ''uuid-i'',
        created = 1648135876829 \<rparr> ''RESPONSE'' Cb_void,
    Ev_stringify \<lparr> idempotency_key = ''uuid-ii'', api_version = ''2020-08-27'',
        type = ''something_else'', data = None, id' = ''uuid-iii'',
        created = 1648135876830 \<rparr>,
    Ev_hmac ''this-is-a-secret'' ''{uuid-ii,something_else,uuid-iii}'',
    Ev_fetch (1, 0) ''https://myhook.com''
      \<lparr> http_method = ''POST'',
        headers = [(''Content-Type'', ''application/json''), (''X-Environment'', ''sandbox''),
                   (''X-Signature'', ''hmac(this-is-a-secret,{uuid-ii,something_else,uuid-iii})'')],
        body = ''{uuid-ii,something_else,uuid-iii}'' \<rparr>,
    Ev_observer (0, 0) 2 ''https://myhook.com''
      \<lparr> idempotency_key = ''uuid-'', api_version = ''2020-08-27'',
        type = ''did_something'', data = Some ''seen'', id' = ''uuid-i'',
        created = 1648135876829 \<rparr> ''RESPONSE'' Cb_promise] \<and>
   state (delivery (step test_externals (Fetch_settles (0, 0) (Inr ''RESPONSE''))
     (run test_externals
        [OnDone stamping_observer, OnDone reentrant_observer, OnDone async_observer,
         Add ''https://myhook.com'' None, Trigger ''did_something'' None]
        (new_system test_props))) (0, 0)) = Awaiting_observers ''RESPONSE'' [0, 2] \<and>
   trace (step test_externals (Fetch_settles (0, 0) (Inr ''RESPONSE''))
     (run test_externals
        [OnDone sync_observer, OnDone throwing_observer, OnDone async_observer,
         Add ''https://myhook.com'' None, Trigger ''did_something'' None]
        (new_system test_props))) =
   [Ev_stringify \<lparr> idempotency_key = ''uuid-'', api_version = ''2020-08-27'',
        type = ''did_something'', data = None, id' = ''uuid-i'',
        created = 1648135876829 \<rparr>,
    Ev_hmac ''this-is-a-secret'' ''{uuid-,did_something,uuid-i}'',
    Ev_fetch (0, 0) ''https://myhook.com''
      \<lparr> http_method = ''POST'',
        headers = [(''Content-Type'', ''application/json''), (''X-Environment'', ''sandbox''),
                   (''X-Signature'', ''hmac(this-is-a-secret,{uuid-,did_something,uuid-i})'')],
        body = ''{uuid-,did_something,uuid-i}'' \<rparr>,
    Ev_fetch_resolved (0, 0) ''RESPONSE'',
    Ev_observer (0, 0) 0 ''https://myhook.com''
      \<lparr> idempotency_key = ''uuid-'', api_version = ''2020-08-27'',
        type = ''did_something'', data = None, id' = ''uuid-i'',
        created = 1648135876829 \<rparr> ''RESPONSE'' Cb_void,
    Ev_observer (0, 0) 1 ''https://myhook.com''
      \<lparr> idempotency_key = ''uuid-'', api_version = ''2020-08-27'',
        type = ''did_something'', data = None, id' = ''uuid-i'',
        created = 1648135876829 \<rparr> ''RESPONSE'' (Cb_throws (Error ''observer failed''))] \<and>
   state (delivery (step test_externals (Fetch_settles (0, 0) (Inr ''RESPONSE''))
     (run test_externals
        [OnDone sync_observer, OnDone throwing_observer, OnDone async_observer,
         Add ''https://myhook.com'' None, Trigger ''did_something'' None]
        (new_system test_props))) (0, 0)) = Post_rejected (Error ''observer failed'') \<and>
   state (delivery (step test_externals (Observer_settles (0, 0) 1 (Inr ()))
     (run test_externals
        [OnDone async_observer, OnDone async_observer, Add ''https://myhook.com'' None,
         Trigger ''did_something'' None, Fetch_settles (0, 0) (Inr ''RESPONSE'')]
        (new_system test_props))) (0, 0)) = Awaiting_observers ''RESPONSE'' [0] \<and>
   state (delivery (step test_externals (Observer_settles (0, 0) 1 (Inl (Error ''observer rejected'')))
     (run test_externals
        [OnDone async_observer, OnDone async_observer, Add ''https://myhook.com'' None,
         Trigger ''did_something'' None, Fetch_settles (0, 0) (Inr ''RESPONSE'')]
        (new_system test_props))) (0, 0)) = Post_rejected (Error ''observer rejected'') \<and>
   state (delivery (run test_externals
     [Observer_settles (0, 0) 1 (Inr ()), Observer_settles (0, 0) 0 (Inr ())]
     (run test_externals
        [OnDone async_observer, OnDone async_observer, Add ''https://myhook.com'' None,
         Trigger ''did_something'' None, Fetch_settles (0, 0) (Inr ''RESPONSE'')]
        (new_system test_props))) (0, 0)) = Post_fulfilled ''RESPONSE'' \<and>
   (\<forall>e. Ev_fetch_rejected (0, 0) e \<notin> set (trace (run test_externals
        [OnDone stamping_observer, OnDone reentrant_observer, OnDone async_observer,
         Add ''https://myhook.com'' None, Trigger ''did_something'' None,
         Fetch_settles (0, 0) (Inr ''RESPONSE'')]
        (new_system test_props))))"
proof -
  have z: "trace (step test_externals (Fetch_settles (0, 0) (Inl (Error ''ECONNREFUSED'')))
     (run test_externals
        [OnDone stamping_observer, OnDone reentrant_observer, OnDone async_observer,
         Add ''https://myhook.com'' None, Trigger ''did_something'' None]
        (new_system test_props))) =
   [Ev_stringify \<lparr> idempotency_key = ''uuid-'', api_version = ''2020-08-27'',
        type = ''did_something'', data = None, id' = ''uuid-i'',
        created = 1648135876829 \<rparr>,
    Ev_hmac ''this-is-a-secret'' ''{uuid-,did_something,uuid-i}'',
    Ev_fetch (0, 0) ''https://myhook.com''
      \<lparr> http_method = ''POST'',
        headers = [(''Content-Type'', ''application/json''), (''X-Environment'', ''sandbox''),
                   (''X-Signature'', ''hmac(this-is-a-secret,{uuid-,did_something,uuid-i})'')],
        body = ''{uuid-,did_something,uuid-i}'' \<rparr>,
    Ev_fetch_rejected (0, 0) (Error ''ECONNREFUSED'')] \<and>
   state (delivery (step test_externals (Fetch_settles (0, 0) (Inl (Error ''ECONNREFUSED'')))
     (run test_externals
        [OnDone stamping_observer, OnDone reentrant_observer, OnDone async_observer,
         Add ''https://myhook.com'' None, Trigger ''did_something'' None]
        (new_system test_props))) (0, 0)) = Post_rejected (Error ''ECONNREFUSED'')"
    using observers_after_response [OF refl refl refl refl refl,
        where x = test_externals and props = test_props and pid = "(0, 0)" and r = "''RESPONSE''"
          and acts = "[OnDone stamping_observer, OnDone reentrant_observer, OnDone async_observer,
         Add ''https://myhook.com'' None, Trigger ''did_something'' None]" and e = "Error ''ECONNREFUSED''",
        THEN conjunct1]
    by (simp add: run_defs handed_def observer_call_def)
  have a1: "trace (step test_externals (Fetch_settles (0, 0) (Inr ''RESPONSE''))
     (run test_externals
        [OnDone stamping_observer, OnDone reentrant_observer, OnDone async_observer,
         Add ''https://myhook.com'' None, Trigger ''did_something'' None]
        (new_system test_props))) =
   [Ev_stringify \<lparr> idempotency_key = ''uuid-'', api_version = ''2020-08-27'',
        type = ''did_something'', data = None, id' = ''uuid-i'',
        created = 1648135876829 \<rparr>,
    Ev_hmac ''this-is-a-secret'' ''{uuid-,did_something,uuid-i}'',
    Ev_fetch (0, 0) ''https://myhook.com''
      \<lparr> http_method = ''POST'',
        headers = [(''Content-Type'', ''application/json''), (''X-Environment'', ''sandbox''),
                   (''X-Signature'', ''hmac(this-is-a-secret,{uuid-,did_something,uuid-i})'')],
        body = ''{uuid-,did_something,uuid-i}'' \<rparr>,
    Ev_fetch_resolved (0, 0) ''RESPONSE'',
    Ev_observer (0, 0) 0 ''https://myhook.com''
      \<lparr> idempotency_key = ''uuid-'', api_version = ''2020-08-27'',
        type = ''did_something'', data = None, id' = ''uuid-i'',
        created = 1648135876829 \<rparr> ''RESPONSE'' Cb_promise,
    Ev_observer (0, 0) 1 ''https://myhook.com''
      \<lparr> idempotency_key = ''uuid-'', api_version = ''2020-08-27'',
        type = ''did_something'', data = Some ''seen'', id' = ''uuid-i'',
        created = 1648135876829 \<rparr> ''RESPONSE'' Cb_void,
    Ev_stringify \<lparr> idempotency_key = ''uuid-ii'', api_version = ''2020-08-27'',
        type = ''something_else'', data = None, id' = ''uuid-iii'',
        created = 1648135876830 \<rparr>,
    Ev_hmac ''this-is-a-secret'' ''{uuid-ii,something_else,uuid-iii}'',
    Ev_fetch (1, 0) ''https://myhook.com''
      \<lparr> http_method = ''POST'',
        headers = [(''Content-Type'', ''application/json''), (''X-Environment'', ''sandbox''),
                   (''X-Signature'', ''hmac(this-is-a-secret,{uuid-ii,something_else,uuid-iii})'')],
        body = ''{uuid-ii,something_else,uuid-iii}'' \<rparr>,
    Ev_observer (0, 0) 2 ''https://myhook.com''
      \<lparr> idempotency_key = ''uuid-'', api_version = ''2020-08-27'',
        type = ''did_something'', data = Some ''seen'', id' = ''uuid-i'',
        created = 1648135876829 \<rparr> ''RESPONSE'' Cb_promise]"
    by (simp add: run_defs handed_def observer_call_def)
  have a2: "state (delivery (step test_externals (Fetch_settles (0, 0) (Inr ''RESPONSE''))
     (run test_externals
        [OnDone stamping_observer, OnDone reentrant_observer, OnDone async_observer,
         Add ''https://myhook.com'' None, Trigger ''did_something'' None]
        (new_system test_props))) (0, 0)) = Awaiting_observers ''RESPONSE'' [0, 2]"
    using observers_after_response [OF refl refl refl refl refl,
        where x = test_externals and props = test_props and pid = "(0, 0)" and r = "''RESPONSE''"
          and acts = "[OnDone stamping_observer, OnDone reentrant_observer, OnDone async_observer,
         Add ''https://myhook.com'' None, Trigger ''did_something'' None]",
        THEN conjunct2, THEN conjunct1]
    by (simp add: run_defs handed_def observer_call_def)
  have b1: "trace (step test_externals (Fetch_settles (0, 0) (Inr ''RESPONSE''))
     (run test_externals
        [OnDone sync_observer, OnDone throwing_observer, OnDone async_observer,
         Add ''https://myhook.com'' None, Trigger ''did_something'' None]
        (new_system test_props))) =
   [Ev_stringify \<lparr> idempotency_key = ''uuid-'', api_version = ''2020-08-27'',
        type = ''did_something'', data = None, id' = ''uuid-i'',
        created = 1648135876829 \<rparr>,
    Ev_hmac ''this-is-a-secret'' ''{uuid-,did_something,uuid-i}'',
    Ev_fetch (0, 0) ''https://myhook.com''
      \<lparr> http_method = ''POST'',
        headers = [(''Content-Type'', ''application/json''), (''X-Environment'', ''sandbox''),
                   (''X-Signature'', ''hmac(this-is-a-secret,{uuid-,did_something,uuid-i})'')],
        body = ''{uuid-,did_something,uuid-i}'' \<rparr>,
    Ev_fetch_resolved (0, 0) ''RESPONSE'',
    Ev_observer (0, 0) 0 ''https://myhook.com''
      \<lparr> idempotency_key = ''uuid-'', api_version = ''2020-08-27'',
        type = ''did_something'', data = None, id' = ''uuid-i'',
        created = 1648135876829 \<rparr> ''RESPONSE'' Cb_void,
    Ev_observer (0, 0) 1 ''https://myhook.com''
      \<lparr> idempotency_key = ''uuid-'', api_version = ''2020-08-27'',
        type = ''did_something'', data = None, id' = ''uuid-i'',
        created = 1648135876829 \<rparr> ''RESPONSE'' (Cb_throws (Error ''observer failed''))]"
    by (simp add: run_defs handed_def observer_call_def)
  have b2: "state (delivery (step test_externals (Fetch_settles (0, 0) (Inr ''RESPONSE''))
     (run test_externals
        [OnDone sync_observer, OnDone throwing_observer, OnDone async_observer,
         Add ''https://myhook.com'' None, Trigger ''did_something'' None]
        (new_system test_props))) (0, 0)) = Post_rejected (Error ''observer failed'')"
    using observers_after_response [OF refl refl refl refl refl,
        where x = test_externals and props = test_props and pid = "(0, 0)" and r = "''RESPONSE''"
          and acts = "[OnDone sync_observer, OnDone throwing_observer, OnDone async_observer,
         Add ''https://myhook.com'' None, Trigger ''did_something'' None]" and j = 1 and e = "Error ''observer failed''",
        THEN conjunct2, THEN conjunct2, THEN conjunct1]
    by (simp add: run_defs handed_def observer_call_def)
  have c: "state (delivery (step test_externals (Observer_settles (0, 0) 1 (Inr ()))
     (run test_externals
        [OnDone async_observer, OnDone async_observer, Add ''https://myhook.com'' None,
         Trigger ''did_something'' None, Fetch_settles (0, 0) (Inr ''RESPONSE'')]
        (new_system test_props))) (0, 0)) = Awaiting_observers ''RESPONSE'' [0] \<and>
   state (delivery (step test_externals (Observer_settles (0, 0) 1 (Inl (Error ''observer rejected'')))
     (run test_externals
        [OnDone async_observer, OnDone async_observer, Add ''https://myhook.com'' None,
         Trigger ''did_something'' None, Fetch_settles (0, 0) (Inr ''RESPONSE'')]
        (new_system test_props))) (0, 0)) = Post_rejected (Error ''observer rejected'') \<and>
   state (delivery (run test_externals
     [Observer_settles (0, 0) 1 (Inr ()), Observer_settles (0, 0) 0 (Inr ())]
     (run test_externals
        [OnDone async_observer, OnDone async_observer, Add ''https://myhook.com'' None,
         Trigger ''did_something'' None, Fetch_settles (0, 0) (Inr ''RESPONSE'')]
        (new_system test_props))) (0, 0)) = Post_fulfilled ''RESPONSE''"
    using observers_after_response [OF refl refl refl refl refl,
        where x = test_externals and props = test_props and pid = "(0, 0)" and r = "''RESPONSE''"
          and acts = "[OnDone async_observer, OnDone async_observer, Add ''https://myhook.com'' None,
         Trigger ''did_something'' None, Fetch_settles (0, 0) (Inr ''RESPONSE'')]" and k = 1 and ks = "[0, 1]" and order = "[1, 0]" and e = "Error ''observer rejected''",
        THEN conjunct2, THEN conjunct2, THEN conjunct2, THEN conjunct1]
    by (simp add: run_defs handed_def observer_call_def)
  have d1: "(\<forall>e. Ev_fetch_rejected (0, 0) e \<notin> set (trace (run test_externals
        [OnDone stamping_observer, OnDone reentrant_observer, OnDone async_observer,
         Add ''https://myhook.com'' None, Trigger ''did_something'' None,
         Fetch_settles (0, 0) (Inr ''RESPONSE'')]
        (new_system test_props))))"
    using observers_after_response [OF refl refl refl refl refl,
        where x = test_externals and props = test_props and pid = "(0, 0)" and r = "''RESPONSE''"
          and acts = "[OnDone stamping_observer, OnDone reentrant_observer, OnDone async_observer,
         Add ''https://myhook.com'' None, Trigger ''did_something'' None,
         Fetch_settles (0, 0) (Inr ''RESPONSE'')]" and q = "(0, 0)" and k' = 2 and u' = "''https://myhook.com''" and r' = "''RESPONSE''" and res = Cb_promise and ys = "[]"
          and b' = "\<lparr> idempotency_key = ''uuid-'', api_version = ''2020-08-27'',
        type = ''did_something'', data = Some ''seen'', id' = ''uuid-i'',
        created = 1648135876829 \<rparr>"
          and xs = "[Ev_stringify \<lparr> idempotency_key = ''uuid-'', api_version = ''2020-08-27'',
        type = ''did_something'', data = None, id' = ''uuid-i'',
        created = 1648135876829 \<rparr>,
    Ev_hmac ''this-is-a-secret'' ''{uuid-,did_something,uuid-i}'',
    Ev_fetch (0, 0) ''https://myhook.com''
      \<lparr> http_method = ''POST'',
        headers = [(''Content-Type'', ''application/json''), (''X-Environment'', ''sandbox''),
                   (''X-Signature'', ''hmac(this-is-a-secret,{uuid-,did_something,uuid-i})'')],
        body = ''{uuid-,did_something,uuid-i}'' \<rparr>,
    Ev_fetch_resolved (0, 0) ''RESPONSE'',
    Ev_observer (0, 0) 0 ''https://myhook.com''
      \<lparr> idempotency_key = ''uuid-'', api_version = ''2020-08-27'',
        type = ''did_something'', data = None, id' = ''uuid-i'',
        created = 1648135876829 \<rparr> ''RESPONSE'' Cb_promise,
    Ev_observer (0, 0) 1 ''https://myhook.com''
      \<lparr> idempotency_key = ''uuid-'', api_version = ''2020-08-27'',
        type = ''did_something'', data = Some ''seen'', id' = ''uuid-i'',
        created = 1648135876829 \<rparr> ''RESPONSE'' Cb_void,
    Ev_stringify \<lparr> idempotency_key = ''uuid-ii'', api_version = ''2020-08-27'',
        type = ''something_else'', data = None, id' = ''uuid-iii'',
        created = 1648135876830 \<rparr>,
    Ev_hmac ''this-is-a-secret'' ''{uuid-ii,something_else,uuid-iii}'',
    Ev_fetch (1, 0) ''https://myhook.com''
      \<lparr> http_method = ''POST'',
        headers = [(''Content-Type'', ''application/json''), (''X-Environment'', ''sandbox''),
                   (''X-Signature'', ''hmac(this-is-a-secret,{uuid-ii,something_else,uuid-iii})'')],
        body = ''{uuid-ii,something_else,uuid-iii}'' \<rparr>]",
        THEN conjunct2, THEN conjunct2, THEN conjunct2, THEN conjunct2]
    by (simp add: run_defs handed_def observer_call_def)
  show ?thesis
    using z a1 a2 b1 b2 c d1 by (intro conjI) simp_all
qed

text \<open>
  Claim C7 as stated has each observer awaited before the next one starts.  With two
  observers that return promises, the second is called right after the first, and the
  delivery then waits for both promises together.
\<close>

theorem observers_not_awaited_in_turn:
  "trace (run test_externals
        [OnDone async_observer, OnDone async_observer, Add ''https://myhook.com'' None,
         Trigger ''did_something'' None, Fetch_settles (0, 0) (Inr ''RESPONSE'')]
        (new_system test_props)) =
   [Ev_stringify \<lparr> idempotency_key = ''uuid-'', api_version = ''2020-08-27'',
                   type = ''did_something'', data = None, id' = ''uuid-i'',
                   created = 1648135876829 \<rparr>,
    Ev_hmac ''this-is-a-secret'' ''{uuid-,did_something,uuid-i}'',
    Ev_fetch (0, 0) ''https://myhook.com''
      \<lparr> http_method = ''POST'',
        headers = [(''Content-Type'', ''application/json''), (''X-Environment'', ''sandbox''),
                   (''X-Signature'', ''hmac(this-is-a-secret,{uuid-,did_something,uuid-i})'')],
        body = ''{uuid-,did_something,uuid-i}'' \<rparr>,
    Ev_fetch_resolved (0, 0) ''RESPONSE'',
    Ev_observer (0, 0) 0 ''https://myhook.com''
      \<lparr> idempotency_key = ''uuid-'', api_version = ''2020-08-27'',
        type = ''did_something'', data = None, id' = ''uuid-i'',
        created = 1648135876829 \<rparr> ''RESPONSE'' Cb_promise,
    Ev_observer (0, 0) 1 ''https://myhook.com''
      \<lparr> idempotency_key = ''uuid-'', api_version = ''2020-08-27'',
        type = ''did_something'', data = None, id' = ''uuid-i'',
        created = 1648135876829 \<rparr> ''RESPONSE'' Cb_promise] \<and>
   state (delivery (run test_externals
        [OnDone async_observer, OnDone async_observer, Add ''https://myhook.com'' None,
         Trigger ''did_something'' None, Fetch_settles (0, 0) (Inr ''RESPONSE'')]
        (new_system test_props)) (0, 0)) = Awaiting_observers ''RESPONSE'' [0, 1]"
  by (simp add: run_defs)

end
